theory Spec2Isabelle
  imports Complex_Main "HOL-Library.AList"
begin

section \<open>Data model of the TinyTuya API server\<close>

text \<open>
  The server keeps its state in module-level Python variables: \<^verbatim>\<open>tuyadevices\<close> (the
  credential records loaded from devices.json or fetched from the cloud),
  \<^verbatim>\<open>deviceslist\<close> (the registry of devices seen on UDP), \<^verbatim>\<open>newdevices\<close>,
  \<^verbatim>\<open>retrydevices\<close>, \<^verbatim>\<open>retrytimer\<close> and \<^verbatim>\<open>cloudconfig\<close>.  All of them hold
  values that came out of \<^verbatim>\<open>json.loads\<close>, so the model has a datatype of JSON values.
  A Python dict is an association list in insertion order: \<open>map_of\<close> reads it,
  \<open>AList.update\<close> is \<^verbatim>\<open>d[k] = v\<close> (in place for a known key, at the end for a new
  one) and \<open>AList.delete\<close> is \<^verbatim>\<open>del d[k]\<close>.

  Conventions of the model: JSON numbers are integers; device ids are strings (an
  announcement whose \<^verbatim>\<open>gwId\<close> is not a string is reported as \<open>Unmodelled\<close>); a
  character is one code point below 256, which is what \<^verbatim>\<open>http.server\<close> hands to the
  handler in \<^verbatim>\<open>self.path\<close>.  The Python variable \<^verbatim>\<open>id\<close> is written \<open>did\<close>,
  since \<open>id\<close> is the identity function of HOL.
\<close>

datatype json =
    JNull
  | JBool bool
  | JInt int
  | JStr string
  | JList "json list"
  | JObj "(string \<times> json) list"

type_synonym jobj = "(string \<times> json) list"

datatype pyerr = KeyError | TypeError | ValueError | IndexError | DeviceError | Unmodelled

definition RETRYTIME :: real where
  "RETRYTIME = 30"

definition RETRYCOUNT :: int where
  "RETRYCOUNT = 5"

text \<open>
  The last two fields are not variables of the program.  \<open>bridge_calls\<close> counts the
  calls of \<^verbatim>\<open>tuyaCloudRefresh\<close> and \<open>cloud_contacts\<close> counts how often
  \<^verbatim>\<open>tinytuya.Cloud\<close> was constructed, so that claims about invoking the bridge and
  contacting the cloud can be stated.
\<close>

record server_state =
  tuyadevices :: "json list"
  deviceslist :: "(string \<times> jobj) list"
  newdevices :: "string list"
  retrydevices :: "(string \<times> int) list"
  retrytimer :: real
  cloudconfig :: jobj
  bridge_calls :: nat
  cloud_contacts :: nat

definition keys :: "('k \<times> 'v) list \<Rightarrow> 'k set" where
  "keys d = fst ` set d"

section \<open>Helper functions of server.py\<close>

text \<open>
  \<^verbatim>\<open>tuyaLookup(deviceid)\<close>: first record whose id equals \<open>deviceid\<close>.  Subscripting
  a record that is not a dict raises TypeError, a missing field raises KeyError.
\<close>

fun tuyaLookup :: "json list \<Rightarrow> string \<Rightarrow> pyerr + (json \<times> json \<times> json)" where
  "tuyaLookup [] deviceid = Inr (JStr '''', JStr '''', JStr '''')"
| "tuyaLookup (JObj i # rest) deviceid =
     (case map_of i ''id'' of
        None \<Rightarrow> Inl KeyError
      | Some v \<Rightarrow>
          if v = JStr deviceid then
            (case map_of i ''name'' of
               None \<Rightarrow> Inl KeyError
             | Some n \<Rightarrow>
                 (case map_of i ''key'' of
                    None \<Rightarrow> Inl KeyError
                  | Some k \<Rightarrow>
                      (case map_of i ''mac'' of
                         Some m \<Rightarrow> Inr (n, k, m)
                       | None \<Rightarrow> Inr (n, k, JStr ''''))))
          else tuyaLookup rest deviceid)"
| "tuyaLookup (_ # rest) deviceid = Inl TypeError"

text \<open>
  The callers in \<^verbatim>\<open>tuyalisten\<close> and in the main loop wrap the lookup in
  \<^verbatim>\<open>try: ... except: pass\<close>, which leaves the three variables at \<^verbatim>\<open>""\<close>.
\<close>

definition lookup_or_blank :: "json list \<Rightarrow> string \<Rightarrow> json \<times> json \<times> json" where
  "lookup_or_blank tds deviceid =
     (case tuyaLookup tds deviceid of
        Inl _ \<Rightarrow> (JStr '''', JStr '''', JStr '''')
      | Inr r \<Rightarrow> r)"

text \<open>
  \<^verbatim>\<open>appenddevice(newdevice, devices)\<close> returns True and leaves \<open>devices\<close> alone when
  the id is already a key; otherwise it stores the device and returns False.  The id is
  passed separately here: the caller has just stored it under \<^verbatim>\<open>"id"\<close>.
\<close>

definition appenddevice ::
  "string \<Rightarrow> jobj \<Rightarrow> (string \<times> jobj) list \<Rightarrow> bool \<times> (string \<times> jobj) list" where
  "appenddevice newid newdevice devices =
     (if newid \<in> keys devices then (True, devices)
      else (False, AList.update newid newdevice devices))"

section \<open>The discovery listener\<close>

text \<open>
  One iteration of the loop of \<^verbatim>\<open>tuyalisten\<close>, after \<^verbatim>\<open>recvfrom\<close> returned.  The
  inputs are the sender address and what stripping, decrypting and \<^verbatim>\<open>json.loads\<close>
  made of the datagram: \<open>None\<close> when one of them raised.  \<open>announcement\<close> is the
  first try block: it yields the dict \<open>result\<close> and \<open>gwId\<close>.  A value that is
  not a dict, or a dict without \<^verbatim>\<open>"ip"\<close>, falls back to the sender address; a dict
  with \<^verbatim>\<open>"ip"\<close> but no \<^verbatim>\<open>"gwId"\<close> has already overwritten \<open>ip\<close>.
\<close>

definition announcement :: "string \<Rightarrow> json option \<Rightarrow> pyerr + (jobj \<times> string)" where
  "announcement addr_ip decoded =
     (case decoded of
        Some (JObj result) \<Rightarrow>
          (case map_of result ''ip'' of
             None \<Rightarrow> Inr ([(''ip'', JStr addr_ip)], '''')
           | Some ip \<Rightarrow>
               (case map_of result ''gwId'' of
                  None \<Rightarrow> Inr ([(''ip'', ip)], '''')
                | Some (JStr gwId) \<Rightarrow> Inr (result, gwId)
                | Some _ \<Rightarrow> Inl Unmodelled))
      | _ \<Rightarrow> Inr ([(''ip'', JStr addr_ip)], ''''))"

definition set_values :: "jobj \<Rightarrow> json \<Rightarrow> json \<Rightarrow> json \<Rightarrow> string \<Rightarrow> jobj" where
  "set_values result dname mac dkey gwId =
     AList.update ''id'' (JStr gwId)
       (AList.update ''key'' dkey
         (AList.update ''mac'' mac
           (AList.update ''name'' dname result)))"

definition tuyalisten :: "string \<Rightarrow> json option \<Rightarrow> server_state \<Rightarrow> pyerr + server_state" where
  "tuyalisten addr_ip decoded st =
     (case announcement addr_ip decoded of
        Inl e \<Rightarrow> Inl e
      | Inr (result0, gwId) \<Rightarrow>
          (case lookup_or_blank (tuyadevices st) gwId of
             (dname, dkey, mac) \<Rightarrow>
               (let result = set_values result0 dname mac dkey gwId in
                case appenddevice gwId result (deviceslist st) of
                  (True, _) \<Rightarrow> Inr st
                | (False, devices) \<Rightarrow>
                    if dname = JStr '''' \<and> dkey = JStr '''' \<and> gwId \<notin> set (newdevices st)
                    then Inr (st\<lparr>deviceslist := devices,
                                 retrydevices := AList.update gwId RETRYCOUNT (retrydevices st),
                                 newdevices := newdevices st @ [gwId]\<rparr>)
                    else Inr (st\<lparr>deviceslist := devices\<rparr>))))"

section \<open>Python string operations used by the handler\<close>

text \<open>
  \<^verbatim>\<open>s.startswith(p)\<close>, \<^verbatim>\<open>s.split(sep)\<close> for a non-empty separator (occurrences
  are found from the left and do not overlap), \<^verbatim>\<open>s.lower()\<close>, \<^verbatim>\<open>s.isnumeric()\<close>
  and \<^verbatim>\<open>int(s)\<close>.  Below code point 256 the cased letters are A to Z and the
  letters from 0xC0 to 0xDE without the multiplication sign; their lower-case form is 32
  higher, which sets the bit of weight 32.  The numeric characters below 256 are the
  ten digits, the superscripts one, two and three and the three vulgar fractions;
  \<^verbatim>\<open>int\<close> accepts only the digits among them and raises ValueError otherwise.
  It also raises ValueError for a string of more than 4300 digits (the default of
  \<^verbatim>\<open>sys.int_max_str_digits\<close> in CPython 3.11 and in the later releases of 3.7 to
  3.10).  \<open>int_of_str\<close> is \<^verbatim>\<open>int\<close> on strings that passed \<open>isnumeric\<close>, the
  only ones it is used on.
\<close>

definition startswith :: "string \<Rightarrow> string \<Rightarrow> bool" where
  "startswith s p = (take (length p) s = p)"

fun split_str :: "string \<Rightarrow> string \<Rightarrow> string list" where
  "split_str sep [] = ['''']"
| "split_str sep (c # cs) =
     (if sep \<noteq> [] \<and> take (length sep) (c # cs) = sep
      then [] # split_str sep (drop (length sep) (c # cs))
      else (case split_str sep cs of
              w # ws \<Rightarrow> (c # w) # ws
            | [] \<Rightarrow> [c] # []))"

definition lower_char :: "char \<Rightarrow> char" where
  "lower_char c =
     (let n = (of_char c :: nat) in
      if (65 \<le> n \<and> n \<le> 90) \<or> (192 \<le> n \<and> n \<le> 222 \<and> n \<noteq> 215)
      then (case c of Char b0 b1 b2 b3 b4 b5 b6 b7 \<Rightarrow> Char b0 b1 b2 b3 b4 True b6 b7)
      else c)"

definition lower :: "string \<Rightarrow> string" where
  "lower s = map lower_char s"

definition isdecimal_char :: "char \<Rightarrow> bool" where
  "isdecimal_char c = (48 \<le> (of_char c :: nat) \<and> (of_char c :: nat) \<le> 57)"

definition isnumeric_char :: "char \<Rightarrow> bool" where
  "isnumeric_char c =
     (isdecimal_char c \<or> (of_char c :: nat) \<in> {178, 179, 185, 188, 189, 190})"

definition isnumeric :: "string \<Rightarrow> bool" where
  "isnumeric s = (s \<noteq> [] \<and> list_all isnumeric_char s)"

definition digits_value :: "string \<Rightarrow> int" where
  "digits_value s = foldl (\<lambda>a c. 10 * a + (int (of_char c) - 48)) 0 s"

definition int_max_str_digits :: nat where
  "int_max_str_digits = 4300"

definition int_of_str :: "string \<Rightarrow> pyerr + int" where
  "int_of_str s =
     (if s \<noteq> [] \<and> list_all isdecimal_char s \<and> length s \<le> int_max_str_digits
      then Inr (digits_value s) else Inl ValueError)"

section \<open>External collaborators\<close>

text \<open>
  The code calls four things that are not part of the repository.  They are parameters
  of the model:
  \<^item> \<open>unquote\<close> is \<^verbatim>\<open>urllib.parse.unquote\<close> (its result is taken to stay below
    code point 256);
  \<^item> \<open>float_raises v\<close> says whether \<^verbatim>\<open>float(v)\<close> raises;
  \<^item> \<open>device id call\<close> is what the Device Client does with one operation on the
    device \<open>id\<close>: it raises or returns a value (the constructor, \<^verbatim>\<open>set_version\<close>
    and \<^verbatim>\<open>close\<close> are taken not to raise);
  \<^item> \<open>cloud n cfg\<close> is what the Cloud Client answers at its \<open>n\<close>-th use with the
    configuration \<open>cfg\<close>: an error value in \<^verbatim>\<open>cloud.error\<close>, or the device list of
    \<^verbatim>\<open>getdevices\<close>.
  What a handler did with the Device Client is recorded as a list of events.
\<close>

datatype dev_call =
    Turn_off json
  | Turn_on json
  | Status
  | Set_value string json

datatype event =
    Open string json json
  | Set_version json
  | Call dev_call
  | Close

datatype cloud_reply = CloudError json | CloudDevices "json list"

record extern =
  unquote :: "string \<Rightarrow> string"
  float_raises :: "json \<Rightarrow> bool"
  device :: "string \<Rightarrow> dev_call \<Rightarrow> pyerr + json"
  cloud :: "nat \<Rightarrow> jobj \<Rightarrow> cloud_reply"

section \<open>The Cloud Sync Bridge\<close>

text \<open>
  \<^verbatim>\<open>tuyaCloudRefresh()\<close>.  The test of the four configuration fields is a chain of
  \<^verbatim>\<open>or\<close>: it stops at the first empty field, and subscripting a missing field
  raises KeyError.  Writing devices.json (\<^verbatim>\<open>tuyaSaveJson\<close>) is outside the model.
\<close>

fun any_empty :: "jobj \<Rightarrow> string list \<Rightarrow> pyerr + bool" where
  "any_empty cfg [] = Inr False"
| "any_empty cfg (k # ks) =
     (case map_of cfg k of
        None \<Rightarrow> Inl KeyError
      | Some v \<Rightarrow> if v = JStr '''' then Inr True else any_empty cfg ks)"

definition config_fields :: "string list" where
  "config_fields = [''apiKey'', ''apiSecret'', ''apiRegion'', ''apiDeviceID'']"

definition called :: "server_state \<Rightarrow> server_state" where
  "called st = st\<lparr>bridge_calls := Suc (bridge_calls st)\<rparr>"

definition contacted :: "server_state \<Rightarrow> server_state" where
  "contacted st = st\<lparr>cloud_contacts := Suc (cloud_contacts st)\<rparr>"

definition tuyaCloudRefresh :: "extern \<Rightarrow> server_state \<Rightarrow> pyerr + (json \<times> server_state)" where
  "tuyaCloudRefresh ext st =
     (case any_empty (cloudconfig st) config_fields of
        Inl e \<Rightarrow> Inl e
      | Inr True \<Rightarrow> Inr (JObj [(''Error'', JStr ''Cloud API config missing'')], called st)
      | Inr False \<Rightarrow>
          (case cloud ext (cloud_contacts st) (cloudconfig st) of
             CloudError e \<Rightarrow> Inr (e, contacted (called st))
           | CloudDevices ds \<Rightarrow>
               Inr (JObj [(''devices'', JList ds)],
                    contacted (called st)\<lparr>tuyadevices := ds\<rparr>)))"

section \<open>The retry loop of the main thread\<close>

text \<open>
  The first \<^verbatim>\<open>for\<close> loop of a pass goes through \<^verbatim>\<open>newdevices\<close>.  For a device with
  a name or a key in the credential records it writes name, key and mac into the
  registry entry (a KeyError if the registry has no such entry), notes the id in
  \<open>found\<close> and deletes it from \<^verbatim>\<open>retrydevices\<close> if it is there.
\<close>

definition resolved_entry :: "jobj \<Rightarrow> json \<Rightarrow> json \<Rightarrow> json \<Rightarrow> jobj" where
  "resolved_entry e dname dkey mac =
     AList.update ''mac'' mac (AList.update ''key'' dkey (AList.update ''name'' dname e))"

fun resolve_new ::
  "json list \<Rightarrow> string list \<Rightarrow> (string \<times> jobj) list \<Rightarrow> (string \<times> int) list \<Rightarrow> string list
   \<Rightarrow> pyerr + ((string \<times> jobj) list \<times> (string \<times> int) list \<times> string list)" where
  "resolve_new tds [] dl rd found = Inr (dl, rd, found)"
| "resolve_new tds (devid # rest) dl rd found =
     (case lookup_or_blank tds devid of
        (dname, dkey, mac) \<Rightarrow>
          if dname \<noteq> JStr '''' \<or> dkey \<noteq> JStr '''' then
            (case map_of dl devid of
               None \<Rightarrow> Inl KeyError
             | Some e \<Rightarrow>
                 resolve_new tds rest
                   (AList.update devid (resolved_entry e dname dkey mac) dl)
                   (if devid \<in> keys rd then AList.delete devid rd else rd)
                   (found @ [devid]))
          else resolve_new tds rest dl rd found)"

text \<open>
  The second part: every count in \<^verbatim>\<open>retrydevices\<close> goes down by one, the ids whose
  count fell below 1 are collected in \<open>expired\<close> and deleted afterwards.
\<close>

definition decrement :: "(string \<times> int) list \<Rightarrow> (string \<times> int) list" where
  "decrement rd = map (\<lambda>(devid, n). (devid, n - 1)) rd"

definition expired :: "(string \<times> int) list \<Rightarrow> string list" where
  "expired rd = map fst (filter (\<lambda>(devid, n). n < 1) rd)"

definition countdown :: "(string \<times> int) list \<Rightarrow> (string \<times> int) list" where
  "countdown rd = fold AList.delete (expired (decrement rd)) (decrement rd)"

text \<open>
  \<open>resolution_pass\<close> is the body under \<^verbatim>\<open>if len(retrydevices) > 0\<close>: the
  refresh that is skipped when the wildcard \<^verbatim>\<open>'*'\<close> is present, then the two loops;
  \<open>main_iteration\<close> is one round of \<^verbatim>\<open>while(True)\<close> before the sleep.  \<open>now\<close>
  is the clock at the gate, \<open>now2\<close> the clock when the timer is set again.  An
  exception other than KeyboardInterrupt ends the loop: it is the \<open>Inl\<close> result.
  \<open>found\<close> holds ids taken from \<^verbatim>\<open>newdevices\<close>, one per position, so
  \<^verbatim>\<open>newdevices.remove\<close> always finds its argument.
\<close>

definition refresh_unless_forced :: "extern \<Rightarrow> real \<Rightarrow> server_state \<Rightarrow> pyerr + server_state" where
  "refresh_unless_forced ext now2 st =
     (if ''*'' \<notin> keys (retrydevices st)
      then (case tuyaCloudRefresh ext st of
              Inl e \<Rightarrow> Inl e
            | Inr (_, st1) \<Rightarrow> Inr (st1\<lparr>retrytimer := now2 + RETRYTIME\<rparr>))
      else Inr st)"

definition resolve_and_expire :: "server_state \<Rightarrow> pyerr + server_state" where
  "resolve_and_expire st1 =
     (case resolve_new (tuyadevices st1) (newdevices st1) (deviceslist st1)
             (retrydevices st1) [] of
        Inl e \<Rightarrow> Inl e
      | Inr (dl, rd, found) \<Rightarrow>
          Inr (st1\<lparr>deviceslist := dl,
                   newdevices := fold remove1 found (newdevices st1),
                   retrydevices := countdown rd\<rparr>))"

definition resolution_pass :: "extern \<Rightarrow> real \<Rightarrow> server_state \<Rightarrow> pyerr + server_state" where
  "resolution_pass ext now2 st =
     (case refresh_unless_forced ext now2 st of
        Inl e \<Rightarrow> Inl e
      | Inr st1 \<Rightarrow> resolve_and_expire st1)"

definition main_iteration ::
  "extern \<Rightarrow> real \<Rightarrow> real \<Rightarrow> server_state \<Rightarrow> pyerr + server_state" where
  "main_iteration ext now now2 st =
     (if retrytimer st \<le> now \<or> ''*'' \<in> keys (retrydevices st) then
        (if length (retrydevices st) > 0 then resolution_pass ext now2 st else Inr st)
      else Inr st)"

section \<open>Functions behind the HTTP handler\<close>

text \<open>
  \<^verbatim>\<open>offlineDevices()\<close>: records that are not dicts are skipped; the others must have
  an id and, when the id is not in the registry, a name.  A record whose id is not a
  string is outside the model.
\<close>

fun offline_loop ::
  "json list \<Rightarrow> (string \<times> jobj) list \<Rightarrow> (string \<times> jobj) list \<Rightarrow> pyerr + (string \<times> jobj) list" where
  "offline_loop [] dl offline = Inr offline"
| "offline_loop (JObj d # rest) dl offline =
     (case map_of d ''id'' of
        None \<Rightarrow> Inl KeyError
      | Some (JStr did) \<Rightarrow>
          if did \<notin> keys dl then
            (case map_of d ''name'' of
               None \<Rightarrow> Inl KeyError
             | Some n \<Rightarrow>
                 offline_loop rest dl
                   (AList.update did
                      (case map_of d ''mac'' of
                         Some m \<Rightarrow> [(''name'', n), (''mac'', m)]
                       | None \<Rightarrow> [(''name'', n)])
                      offline))
          else offline_loop rest dl offline
      | Some _ \<Rightarrow> Inl Unmodelled)"
| "offline_loop (_ # rest) dl offline = offline_loop rest dl offline"

definition offlineDevices :: "server_state \<Rightarrow> pyerr + (string \<times> jobj) list" where
  "offlineDevices st = offline_loop (tuyadevices st) (deviceslist st) []"

text \<open>
  \<^verbatim>\<open>formatreturn(value)\<close> and \<^verbatim>\<open>getDeviceIdByName(name)\<close>.  The latter returns
  False when no entry has the name.  The handler keeps what it returns in its variable
  \<open>id\<close>, which is therefore a JSON value; \<open>in_registry\<close> is \<^verbatim>\<open>id in deviceslist\<close>
  for such a value (the keys of the registry are strings).
\<close>

definition formatreturn :: "json \<Rightarrow> json" where
  "formatreturn v =
     (case v of
        JNull \<Rightarrow> JObj [(''status'', JStr ''OK'')]
      | JObj d \<Rightarrow> JObj d
      | _ \<Rightarrow> JObj [(''status'', v)])"

fun name_loop :: "(string \<times> jobj) list \<Rightarrow> string \<Rightarrow> pyerr + json" where
  "name_loop [] nameuq = Inr (JBool False)"
| "name_loop ((k, e) # rest) nameuq =
     (case map_of e ''name'' of
        None \<Rightarrow> Inl KeyError
      | Some n \<Rightarrow>
          if n = JStr nameuq then
            (case map_of e ''id'' of None \<Rightarrow> Inl KeyError | Some i \<Rightarrow> Inr i)
          else name_loop rest nameuq)"

definition getDeviceIdByName :: "extern \<Rightarrow> (string \<times> jobj) list \<Rightarrow> string \<Rightarrow> pyerr + json" where
  "getDeviceIdByName ext dl name = name_loop dl (unquote ext name)"

definition in_registry :: "json \<Rightarrow> (string \<times> jobj) list \<Rightarrow> bool" where
  "in_registry did dl = (case did of JStr s \<Rightarrow> s \<in> keys dl | _ \<Rightarrow> False)"

definition resolve_id :: "extern \<Rightarrow> (string \<times> jobj) list \<Rightarrow> string \<Rightarrow> pyerr + json" where
  "resolve_id ext dl did = (if did \<notin> keys dl then getDeviceIdByName ext dl did else Inr (JStr did))"

section \<open>The HTTP handler\<close>

text \<open>
  A control branch builds the Device Client from the registry entry, sets the protocol
  version, performs one operation and closes the client.  \<open>open_device\<close> is the first
  two statements, with the events recorded so far when one of them raises;
  \<open>device_command\<close> is the whole block as it stands in the branches for
  \<^verbatim>\<open>/set\<close>, \<^verbatim>\<open>/turnon\<close> and \<^verbatim>\<open>/turnoff\<close>.  The call of \<^verbatim>\<open>d.close()\<close> is the
  statement after the operation, inside the same \<^verbatim>\<open>try\<close>.
\<close>

definition open_device ::
  "extern \<Rightarrow> (string \<times> jobj) list \<Rightarrow> json \<Rightarrow> (pyerr + string) \<times> event list" where
  "open_device ext dl did =
     (case did of
        JStr s \<Rightarrow>
          (case map_of dl s of
             None \<Rightarrow> (Inl KeyError, [])
           | Some e \<Rightarrow>
               (case map_of e ''ip'' of
                  None \<Rightarrow> (Inl KeyError, [])
                | Some ip \<Rightarrow>
                    (case map_of e ''key'' of
                       None \<Rightarrow> (Inl KeyError, [])
                     | Some k \<Rightarrow>
                         (case map_of e ''version'' of
                            None \<Rightarrow> (Inl KeyError, [Open s ip k])
                          | Some v \<Rightarrow>
                              if float_raises ext v then (Inl ValueError, [Open s ip k])
                              else (Inr s, [Open s ip k, Set_version v])))))
      | _ \<Rightarrow> (Inl KeyError, []))"

definition device_command ::
  "extern \<Rightarrow> (string \<times> jobj) list \<Rightarrow> json \<Rightarrow> dev_call \<Rightarrow> (pyerr + json) \<times> event list" where
  "device_command ext dl did call =
     (case open_device ext dl did of
        (Inl e, tr) \<Rightarrow> (Inl e, tr)
      | (Inr s, tr) \<Rightarrow>
          (case device ext s call of
             Inl e \<Rightarrow> (Inl e, tr @ [Call call])
           | Inr r \<Rightarrow> (Inr (formatreturn r), tr @ [Call call, Close])))"

datatype body = Plain string | Json json

definition not_found :: "json \<Rightarrow> body" where
  "not_found did = Json (JObj [(''Error'', JStr ''Device ID not found.''), (''id'', did)])"

definition error_sending :: "json \<Rightarrow> body" where
  "error_sending did = Json (JObj [(''Error'', JStr ''Error sending command to device.''), (''id'', did)])"

text \<open>
  The branches for \<^verbatim>\<open>/turnoff/\<close> and \<^verbatim>\<open>/turnon/\<close> are the same text up to the
  operation and the wording of the syntax error, so they are one function here.  The
  message starts as the plain text \<^verbatim>\<open>Error\<close> and stays so when no statement assigns it.
\<close>

definition switch_branch ::
  "string \<Rightarrow> string \<Rightarrow> (json \<Rightarrow> dev_call) \<Rightarrow> extern \<Rightarrow> server_state \<Rightarrow> string
   \<Rightarrow> pyerr + (body \<times> event list)" where
  "switch_branch prefix syntax_msg op ext st path =
     (case split_str prefix path of
        _ # tok # _ \<Rightarrow>
          (case (if CHR ''/'' \<in> set tok then
                   (case split_str ''/'' tok of
                      [a, b] \<Rightarrow> (a, JStr b, Plain ''Error'')
                    | _ \<Rightarrow> ('''', JInt 1,
                          Json (JObj [(''Error'', JStr syntax_msg), (''url'', JStr path)])))
                 else (tok, JInt 1, Plain ''Error'')) of
             (did0, sw, message) \<Rightarrow>
               (case resolve_id ext (deviceslist st) did0 of
                  Inl e \<Rightarrow> Inl e
                | Inr did \<Rightarrow>
                    if in_registry did (deviceslist st) then
                      (case device_command ext (deviceslist st) did (op sw) of
                         (Inl _, tr) \<Rightarrow> Inr (error_sending did, tr)
                       | (Inr r, tr) \<Rightarrow> Inr (Json r, tr))
                    else if did \<noteq> JStr '''' then Inr (not_found did, [])
                    else Inr (message, [])))
      | _ \<Rightarrow> Inl IndexError)"

definition handle_turnoff :: "extern \<Rightarrow> server_state \<Rightarrow> string \<Rightarrow> pyerr + (body \<times> event list)" where
  "handle_turnoff = switch_branch ''/turnoff/'' ''Invalid syntax in turnoff command.'' Turn_off"

definition handle_turnon :: "extern \<Rightarrow> server_state \<Rightarrow> string \<Rightarrow> pyerr + (body \<times> event list)" where
  "handle_turnon = switch_branch ''/turnon/'' ''Invalid syntax in turnon command.'' Turn_on"

text \<open>
  The branch for \<^verbatim>\<open>/status/\<close>.  After \<^verbatim>\<open>d.status()\<close> the loop over the credential
  records stores \<^verbatim>\<open>dps_mapping\<close> in the response, which raises TypeError when the
  response is not a dict.
\<close>

fun attach_mapping :: "json list \<Rightarrow> string \<Rightarrow> json \<Rightarrow> pyerr + json" where
  "attach_mapping [] did response = Inr response"
| "attach_mapping (JObj x # rest) did response =
     (case map_of x ''id'' of
        None \<Rightarrow> Inl KeyError
      | Some v \<Rightarrow>
          if v = JStr did then
            (case response of
               JObj r \<Rightarrow>
                 Inr (JObj (AList.update ''dps_mapping''
                        (case map_of x ''mapping'' of Some m \<Rightarrow> m | None \<Rightarrow> JList []) r))
             | _ \<Rightarrow> Inl TypeError)
          else attach_mapping rest did response)"
| "attach_mapping (_ # rest) did response = Inl TypeError"

definition status_try ::
  "extern \<Rightarrow> server_state \<Rightarrow> json \<Rightarrow> (pyerr + json) \<times> event list" where
  "status_try ext st did =
     (case open_device ext (deviceslist st) did of
        (Inl e, tr) \<Rightarrow> (Inl e, tr)
      | (Inr s, tr) \<Rightarrow>
          (case device ext s Status of
             Inl e \<Rightarrow> (Inl e, tr @ [Call Status])
           | Inr response \<Rightarrow>
               (case attach_mapping (tuyadevices st) s response of
                  Inl e \<Rightarrow> (Inl e, tr @ [Call Status])
                | Inr response' \<Rightarrow> (Inr (formatreturn response'), tr @ [Call Status, Close]))))"

definition handle_status :: "extern \<Rightarrow> server_state \<Rightarrow> string \<Rightarrow> pyerr + (body \<times> event list)" where
  "handle_status ext st path =
     (case split_str ''/status/'' path of
        _ # did0 # _ \<Rightarrow>
          (case resolve_id ext (deviceslist st) did0 of
             Inl e \<Rightarrow> Inl e
           | Inr did \<Rightarrow>
               if in_registry did (deviceslist st) then
                 (case status_try ext st did of
                    (Inl _, tr) \<Rightarrow>
                      Inr (Json (JObj [(''Error'', JStr ''Error polling device.''), (''id'', did)]), tr)
                  | (Inr r, tr) \<Rightarrow> Inr (Json r, tr))
               else Inr (not_found did, []))
      | _ \<Rightarrow> Inl IndexError)"

text \<open>
  The branch for \<^verbatim>\<open>/set/\<close>.  \<open>coerce_value\<close> is the chain of tests on the unquoted
  value; \<open>map_dps_key\<close> is the loop that replaces a code by the key of the first
  entry of the device's mapping with that code (the inner \<^verbatim>\<open>break\<close> leaves the inner
  loop only, so the outer loop goes on with the new key).  \<open>iterate_mapping\<close> is
  the inner loop for any value of \<^verbatim>\<open>x['mapping']\<close>: over a dict it goes through the
  keys; over an empty list or an empty string it runs zero times; None, a boolean and a
  number are not iterable, and the first character of a non-empty string cannot
  subscript the string, which are TypeErrors; a non-empty list is outside the model
  (\<open>Unmodelled\<close>).  \<open>py_eq\<close> is \<^verbatim>\<open>==\<close> between the id of a record and
  the id of the request when the latter is None, a boolean, a number or a string: a
  boolean equals the integer 0 or 1, and apart from that only equal values of one type
  are equal.  An id of the request that is a list or a dict (\<open>is_container\<close>) is
  outside the model.
  \<open>set_target\<close> is the part of the branch before the test
  \<^verbatim>\<open>id in deviceslist\<close>, \<open>set_try\<close> the whole \<^verbatim>\<open>try\<close> block, and
  \<open>handle_set\<close> adds the \<^verbatim>\<open>except\<close> clause, which answers with the syntax error.
  A request that meets a mapping or an id outside the model is not answered by the
  model.
\<close>

definition coerce_value :: "string \<Rightarrow> pyerr + json" where
  "coerce_value dpsValue =
     (if lower dpsValue = ''true'' then Inr (JBool True)
      else if lower dpsValue = ''false'' then Inr (JBool False)
      else if startswith dpsValue [CHR 0x22] then
        (case split_str [CHR 0x22] dpsValue of
           _ # lit # _ \<Rightarrow> Inr (JStr lit)
         | _ \<Rightarrow> Inl IndexError)
      else if isnumeric dpsValue then
        (case int_of_str dpsValue of Inl e \<Rightarrow> Inl e | Inr n \<Rightarrow> Inr (JInt n))
      else Inr (JStr dpsValue))"

fun find_code :: "jobj \<Rightarrow> string \<Rightarrow> pyerr + string option" where
  "find_code [] dpsKey = Inr None"
| "find_code ((i, JObj entry) # rest) dpsKey =
     (case map_of entry ''code'' of
        None \<Rightarrow> Inl KeyError
      | Some c \<Rightarrow> if c = JStr dpsKey then Inr (Some i) else find_code rest dpsKey)"
| "find_code ((i, _) # rest) dpsKey = Inl TypeError"

fun iterate_mapping :: "json \<Rightarrow> string \<Rightarrow> pyerr + string option" where
  "iterate_mapping (JObj m) dpsKey = find_code m dpsKey"
| "iterate_mapping (JList []) dpsKey = Inr None"
| "iterate_mapping (JList (i # l)) dpsKey = Inl Unmodelled"
| "iterate_mapping (JStr []) dpsKey = Inr None"
| "iterate_mapping _ dpsKey = Inl TypeError"

fun is_container :: "json \<Rightarrow> bool" where
  "is_container (JList l) = True"
| "is_container (JObj d) = True"
| "is_container _ = False"

fun py_eq :: "json \<Rightarrow> json \<Rightarrow> bool" where
  "py_eq (JBool b) (JInt n) = (n = (if b then 1 else 0))"
| "py_eq (JInt n) (JBool b) = (n = (if b then 1 else 0))"
| "py_eq a b = (a = b)"

fun map_dps_key :: "json list \<Rightarrow> json \<Rightarrow> string \<Rightarrow> pyerr + string" where
  "map_dps_key [] did dpsKey = Inr dpsKey"
| "map_dps_key (JObj x # rest) did dpsKey =
     (case map_of x ''id'' of
        None \<Rightarrow> Inl KeyError
      | Some v \<Rightarrow>
          if py_eq v did then
            (case map_of x ''mapping'' of
               None \<Rightarrow> map_dps_key rest did dpsKey
             | Some mapping \<Rightarrow>
                 (case iterate_mapping mapping dpsKey of
                    Inl e \<Rightarrow> Inl e
                  | Inr None \<Rightarrow> map_dps_key rest did dpsKey
                  | Inr (Some i) \<Rightarrow> map_dps_key rest did i))
          else map_dps_key rest did dpsKey)"
| "map_dps_key (_ # rest) did dpsKey = Inl TypeError"

definition set_target ::
  "extern \<Rightarrow> server_state \<Rightarrow> string \<Rightarrow> pyerr + (json \<times> string \<times> json)" where
  "set_target ext st path =
     (case split_str ''/'' path of
        [ignore1, ignore2, did0, dpsKey0, dpsValue0] \<Rightarrow>
          (case coerce_value (unquote ext dpsValue0) of
             Inl e \<Rightarrow> Inl e
           | Inr dpsValue \<Rightarrow>
               (case resolve_id ext (deviceslist st) did0 of
                  Inl e \<Rightarrow> Inl e
                | Inr did \<Rightarrow>
                    if is_container did then Inl Unmodelled
                    else
                      (case (if \<not> isnumeric dpsKey0
                             then map_dps_key (tuyadevices st) did dpsKey0
                             else Inr dpsKey0) of
                         Inl e \<Rightarrow> Inl e
                       | Inr dpsKey \<Rightarrow> Inr (did, dpsKey, dpsValue))))
      | _ \<Rightarrow> Inl ValueError)"

definition set_try :: "extern \<Rightarrow> server_state \<Rightarrow> string \<Rightarrow> (pyerr + body) \<times> event list" where
  "set_try ext st path =
     (case set_target ext st path of
        Inl e \<Rightarrow> (Inl e, [])
      | Inr (did, dpsKey, dpsValue) \<Rightarrow>
          if in_registry did (deviceslist st) then
            (case device_command ext (deviceslist st) did (Set_value dpsKey dpsValue) of
               (Inl e, tr) \<Rightarrow> (Inl e, tr)
             | (Inr r, tr) \<Rightarrow> (Inr (Json r), tr))
          else (Inr (not_found did), []))"

definition handle_set ::
  "extern \<Rightarrow> server_state \<Rightarrow> string \<Rightarrow> pyerr + (body \<times> event list)" where
  "handle_set ext st path =
     (case set_target ext st path of
        Inl Unmodelled \<Rightarrow> Inl Unmodelled
      | _ \<Rightarrow>
          (case set_try ext st path of
             (Inl _, tr) \<Rightarrow>
               Inr (Json (JObj [(''Error'', JStr ''Syntax error in set command URL.''),
                                (''url'', JStr path)]), tr)
           | (Inr message, tr) \<Rightarrow> Inr (message, tr)))"

text \<open>
  The branches for \<^verbatim>\<open>/sync\<close> and \<^verbatim>\<open>/cloudconfig/\<close>: both call the bridge, set the
  timer and store the wildcard entry \<^verbatim>\<open>'*'\<close> with the count 1.
\<close>

definition arm_retry :: "real \<Rightarrow> server_state \<Rightarrow> server_state" where
  "arm_retry now st =
     st\<lparr>retrytimer := now + RETRYTIME,
        retrydevices := AList.update ''*'' 1 (retrydevices st)\<rparr>"

definition handle_sync :: "extern \<Rightarrow> real \<Rightarrow> server_state \<Rightarrow> pyerr + (body \<times> server_state)" where
  "handle_sync ext now st =
     (case tuyaCloudRefresh ext st of
        Inl e \<Rightarrow> Inl e
      | Inr (r, st1) \<Rightarrow> Inr (Json r, arm_retry now st1))"

definition handle_cloudconfig ::
  "extern \<Rightarrow> real \<Rightarrow> server_state \<Rightarrow> string \<Rightarrow> pyerr + (body \<times> server_state)" where
  "handle_cloudconfig ext now st path =
     (case split_str ''/cloudconfig/'' path of
        _ # cfgstr # _ \<Rightarrow>
          (case split_str ''/'' cfgstr of
             [c0, c1, c2, c3] \<Rightarrow>
               handle_sync ext now
                 (st\<lparr>cloudconfig :=
                       AList.update ''apiDeviceID'' (JStr c3)
                         (AList.update ''apiRegion'' (JStr c2)
                           (AList.update ''apiSecret'' (JStr c1)
                             (AList.update ''apiKey'' (JStr c0) (cloudconfig st))))\<rparr>)
           | _ \<Rightarrow>
               Inr (Json (JObj [(''Error'', JStr ''Syntax error in cloud config command URL.'')]),
                    st))
      | _ \<Rightarrow> Inl IndexError)"

text \<open>
  \<^verbatim>\<open>do_GET\<close>: the chain of tests on the path, in the order of the source.  The result
  is the message, the state afterwards and the Device Client events.  The branches for
  \<^verbatim>\<open>/help\<close>, \<^verbatim>\<open>/stats\<close>, \<^verbatim>\<open>/device/\<close>, \<^verbatim>\<open>/delayoff/\<close> and the static files are
  not part of the model, and neither are the request counters.
\<close>

definition dumps_dict :: "(string \<times> jobj) list \<Rightarrow> body" where
  "dumps_dict d = Json (JObj (map (\<lambda>(k, e). (k, JObj e)) d))"

definition do_GET ::
  "extern \<Rightarrow> real \<Rightarrow> server_state \<Rightarrow> string \<Rightarrow> pyerr + (body \<times> server_state \<times> event list)" where
  "do_GET ext now st path =
     (if path = ''/devices'' then Inr (dumps_dict (deviceslist st), st, [])
      else if path = ''/help'' then Inl Unmodelled
      else if path = ''/stats'' then Inl Unmodelled
      else if startswith path ''/set/'' then
        (case handle_set ext st path of
           Inl e \<Rightarrow> Inl e
         | Inr (message, tr) \<Rightarrow> Inr (message, st, tr))
      else if startswith path ''/device/'' then Inl Unmodelled
      else if startswith path ''/turnoff/'' then
        (case handle_turnoff ext st path of
           Inl e \<Rightarrow> Inl e
         | Inr (message, tr) \<Rightarrow> Inr (message, st, tr))
      else if startswith path ''/delayoff/'' then Inl Unmodelled
      else if startswith path ''/turnon/'' then
        (case handle_turnon ext st path of
           Inl e \<Rightarrow> Inl e
         | Inr (message, tr) \<Rightarrow> Inr (message, st, tr))
      else if path = ''/numdevices'' then
        Inr (Json (JObj [(''found'', JInt (int (length (deviceslist st)))),
                         (''registered'', JInt (int (length (tuyadevices st))))]), st, [])
      else if startswith path ''/status/'' then
        (case handle_status ext st path of
           Inl e \<Rightarrow> Inl e
         | Inr (message, tr) \<Rightarrow> Inr (message, st, tr))
      else if path = ''/sync'' then
        (case handle_sync ext now st of
           Inl e \<Rightarrow> Inl e
         | Inr (message, st') \<Rightarrow> Inr (message, st', []))
      else if startswith path ''/cloudconfig/'' then
        (case handle_cloudconfig ext now st path of
           Inl e \<Rightarrow> Inl e
         | Inr (message, st') \<Rightarrow> Inr (message, st', []))
      else if path = ''/offline'' then
        (case offlineDevices st of
           Inl e \<Rightarrow> Inl e
         | Inr offline \<Rightarrow> Inr (dumps_dict offline, st, []))
      else Inl Unmodelled)"

section \<open>Vocabulary of the claims\<close>

text \<open>
  The ids of the credential records, as \<^verbatim>\<open>offlineDevices\<close> reads them, and the shape
  of a record it can process: a dict has a string id and a name, anything else is
  skipped by the loop.
\<close>

fun record_id :: "json \<Rightarrow> string list" where
  "record_id (JObj d) = (case map_of d ''id'' of Some (JStr i) \<Rightarrow> [i] | _ \<Rightarrow> [])"
| "record_id _ = []"

definition credential_ids :: "json list \<Rightarrow> string set" where
  "credential_ids tds = set (concat (map record_id tds))"

fun wf_record :: "json \<Rightarrow> bool" where
  "wf_record (JObj d) =
     (case map_of d ''id'' of Some (JStr i) \<Rightarrow> map_of d ''name'' \<noteq> None | _ \<Rightarrow> False)"
| "wf_record _ = True"

text \<open>
  Vocabulary for the retry loop.  \<open>hit tds devid\<close> is the test
  \<^verbatim>\<open>dname != "" or dkey != ""\<close> of the loop on the result of the lookup.
  \<open>attached tds devid e\<close>: the entry \<open>e\<close> holds the name, key and mac of the
  lookup.  \<open>blank e\<close>: the entry has the empty name and the empty key.
  \<open>consistent\<close> collects what the listener and the loop maintain: the pending table
  is a dict, every new device has a registry entry, and every pending id other than the
  wildcard is a new device whose entry is blank.
\<close>

definition hit :: "json list \<Rightarrow> string \<Rightarrow> bool" where
  "hit tds devid =
     (case lookup_or_blank tds devid of
        (dname, dkey, mac) \<Rightarrow> dname \<noteq> JStr '''' \<or> dkey \<noteq> JStr '''')"

definition attached :: "json list \<Rightarrow> string \<Rightarrow> jobj \<Rightarrow> bool" where
  "attached tds devid e =
     (case lookup_or_blank tds devid of
        (dname, dkey, mac) \<Rightarrow>
          map_of e ''name'' = Some dname \<and> map_of e ''key'' = Some dkey
          \<and> map_of e ''mac'' = Some mac)"

definition blank :: "jobj \<Rightarrow> bool" where
  "blank e = (map_of e ''name'' = Some (JStr '''') \<and> map_of e ''key'' = Some (JStr ''''))"

definition blank_entry :: "(string \<times> jobj) list \<Rightarrow> string \<Rightarrow> bool" where
  "blank_entry dl devid = (case map_of dl devid of Some e \<Rightarrow> blank e | None \<Rightarrow> False)"

definition consistent :: "server_state \<Rightarrow> bool" where
  "consistent st =
     (distinct (map fst (retrydevices st))
      \<and> list_all (\<lambda>devid. devid \<in> keys (deviceslist st)) (newdevices st)
      \<and> list_all (\<lambda>(devid, n). devid = ''*''
                     \<or> (devid \<in> set (newdevices st) \<and> blank_entry (deviceslist st) devid))
           (retrydevices st))"

definition resolved :: "json list \<Rightarrow> string \<Rightarrow> jobj \<Rightarrow> jobj" where
  "resolved tds devid e =
     (case lookup_or_blank tds devid of (dname, dkey, mac) \<Rightarrow> resolved_entry e dname dkey mac)"

text \<open>
  The three kinds of thread act on the shared state: a listener processes a datagram,
  a handler serves a request, the main thread goes once through its loop.  \<open>run\<close>
  executes a sequence of such actions, one after the other, and counts the resolution
  passes among them; it stops at the first exception.  \<open>pass_due\<close> is the pair of
  tests that guard the pass.
\<close>

datatype action =
    Datagram string "json option"
  | Request real string
  | Tick real real

definition pass_due :: "real \<Rightarrow> server_state \<Rightarrow> bool" where
  "pass_due now st =
     ((retrytimer st \<le> now \<or> ''*'' \<in> keys (retrydevices st)) \<and> length (retrydevices st) > 0)"

fun step :: "extern \<Rightarrow> action \<Rightarrow> server_state \<Rightarrow> pyerr + server_state" where
  "step ext (Datagram addr_ip decoded) st = tuyalisten addr_ip decoded st"
| "step ext (Request now path) st =
     (case do_GET ext now st path of Inl e \<Rightarrow> Inl e | Inr (_, st', _) \<Rightarrow> Inr st')"
| "step ext (Tick now now2) st = main_iteration ext now now2 st"

fun is_pass :: "action \<Rightarrow> server_state \<Rightarrow> bool" where
  "is_pass (Tick now now2) st = pass_due now st"
| "is_pass _ st = False"

fun run :: "extern \<Rightarrow> action list \<Rightarrow> server_state \<Rightarrow> pyerr + (server_state \<times> nat)" where
  "run ext [] st = Inr (st, 0)"
| "run ext (a # acts) st =
     (case step ext a st of
        Inl e \<Rightarrow> Inl e
      | Inr st' \<Rightarrow>
          (case run ext acts st' of
             Inl e \<Rightarrow> Inl e
           | Inr (st'', k) \<Rightarrow> Inr (st'', if is_pass a st then Suc k else k)))"

text \<open>
  \<open>budget_in st devid b\<close>: if \<open>devid\<close> is pending, its count is at least 1 and at
  most \<open>b\<close>.
\<close>

definition budget_in :: "server_state \<Rightarrow> string \<Rightarrow> int \<Rightarrow> bool" where
  "budget_in st devid b =
     (case map_of (retrydevices st) devid of None \<Rightarrow> True | Some n \<Rightarrow> 1 \<le> n \<and> n \<le> b)"

text \<open>
  \<open>tracked devid st b\<close> is what holds of a device from its registration as pending
  onwards: it has a registry entry; while it is pending its count is between 1 and
  \<open>b\<close>; while it is in \<^verbatim>\<open>newdevices\<close> its entry is blank; and once it has left
  \<^verbatim>\<open>newdevices\<close> it is not pending and its entry has a name or a key.
\<close>

definition tracked :: "string \<Rightarrow> server_state \<Rightarrow> int \<Rightarrow> bool" where
  "tracked devid st b =
     (devid \<in> keys (deviceslist st) \<and> budget_in st devid b
      \<and> (if devid \<in> set (newdevices st) then blank_entry (deviceslist st) devid
          else devid \<notin> keys (retrydevices st) \<and> \<not> blank_entry (deviceslist st) devid))"

text \<open>
  Shapes of the credential records for the mapping of a code to a data point:
  \<open>other_records devid xs\<close> says that every element of \<open>xs\<close> is a dict with an id
  that is not \<open>devid\<close>; \<open>no_code dpsKey m\<close> says that every entry of the mapping
  \<open>m\<close> is a dict with a code that is not \<open>dpsKey\<close>.
\<close>

fun other_record :: "string \<Rightarrow> json \<Rightarrow> bool" where
  "other_record devid (JObj x) =
     (case map_of x ''id'' of Some v \<Rightarrow> v \<noteq> JStr devid | None \<Rightarrow> False)"
| "other_record devid _ = False"

definition other_records :: "string \<Rightarrow> json list \<Rightarrow> bool" where
  "other_records devid xs = list_all (other_record devid) xs"

fun other_code :: "string \<Rightarrow> string \<times> json \<Rightarrow> bool" where
  "other_code dpsKey (i, JObj entry) =
     (case map_of entry ''code'' of Some c \<Rightarrow> c \<noteq> JStr dpsKey | None \<Rightarrow> False)"
| "other_code dpsKey (i, _) = False"

definition no_code :: "string \<Rightarrow> jobj \<Rightarrow> bool" where
  "no_code dpsKey m = list_all (other_code dpsKey) m"

text \<open>
  \<open>calls tr\<close> are the operations among the events of a request, and
  \<open>value_sent ext now st path dpsKey dpsValue\<close> says that the request \<open>path\<close> is
  answered and that the one operation it performs on a device is
  \<^verbatim>\<open>set_value(dpsKey, dpsValue)\<close>.
\<close>

fun call_of :: "event \<Rightarrow> dev_call list" where
  "call_of (Call c) = [c]"
| "call_of _ = []"

definition calls :: "event list \<Rightarrow> dev_call list" where
  "calls tr = concat (map call_of tr)"


section \<open>Concrete states and requests\<close>

text \<open>
  \<open>st_seen\<close>: the device \<open>abc123\<close> was announced from 10.0.0.5 and is not in the
  credential records; \<open>pkt_moved\<close> is a later announcement of the same device from
  10.0.0.6.  The external collaborators of the examples: \<open>ext_ok\<close> has a device
  whose operations return None and a cloud with no devices, \<open>ext_raise\<close> a device
  whose operations raise, \<open>ext_cloud\<close> a cloud that knows two devices.  In all of
  them \<^verbatim>\<open>unquote\<close> is the identity, which it is on a string without a percent sign.
\<close>

definition st_seen :: server_state where
  "st_seen = \<lparr>tuyadevices = [], deviceslist = [(''abc123'',
       [(''ip'', JStr ''10.0.0.5''), (''gwId'', JStr ''abc123''), (''version'', JStr ''3.3''),
        (''name'', JStr ''''), (''mac'', JStr ''''), (''key'', JStr ''''), (''id'', JStr ''abc123'')])],
     newdevices = [''abc123''], retrydevices = [(''abc123'', 5)], retrytimer = 0,
     cloudconfig = [], bridge_calls = 0, cloud_contacts = 0\<rparr>"

definition pkt_moved :: jobj where
  "pkt_moved = [(''ip'', JStr ''10.0.0.6''), (''gwId'', JStr ''abc123''), (''version'', JStr ''3.3'')]"

definition ext_ok :: extern where
  "ext_ok = \<lparr>unquote = (\<lambda>s. s), float_raises = (\<lambda>v. False),
     device = (\<lambda>d c. Inr JNull), cloud = (\<lambda>n cfg. CloudDevices [])\<rparr>"

definition ext_raise :: extern where
  "ext_raise = \<lparr>unquote = (\<lambda>s. s), float_raises = (\<lambda>v. False),
     device = (\<lambda>d c. Inl DeviceError), cloud = (\<lambda>n cfg. CloudDevices [])\<rparr>"

definition rec_plug :: json where
  "rec_plug = JObj [(''id'', JStr ''abc123''), (''name'', JStr ''Plug1''), (''key'', JStr ''K''),
     (''mapping'', JObj [(''1'', JObj [(''code'', JStr ''switch_1'')])])]"

definition rec_lamp :: json where
  "rec_lamp = JObj [(''id'', JStr ''zzz999''), (''name'', JStr ''Lamp''), (''key'', JStr ''L''),
     (''mac'', JStr ''aa:bb'')]"

definition entry_plug :: jobj where
  "entry_plug = [(''ip'', JStr ''10.0.0.5''), (''gwId'', JStr ''abc123''), (''version'', JStr ''3.3''),
     (''name'', JStr ''Plug1''), (''mac'', JStr ''''), (''key'', JStr ''K''), (''id'', JStr ''abc123'')]"

definition st_plug :: server_state where
  "st_plug = \<lparr>tuyadevices = [rec_plug, rec_lamp], deviceslist = [(''abc123'', entry_plug)],
     newdevices = [], retrydevices = [], retrytimer = 0,
     cloudconfig = [(''apiKey'', JStr ''''), (''apiSecret'', JStr ''s''),
                    (''apiRegion'', JStr ''eu''), (''apiDeviceID'', JStr ''d'')],
     bridge_calls = 0, cloud_contacts = 0\<rparr>"

text \<open>
  The state after one datagram that could not be decoded: the registry has an entry
  under the empty id, with no \<^verbatim>\<open>version\<close>.
\<close>

definition st_garbled :: server_state where
  "st_garbled = \<lparr>tuyadevices = [], deviceslist = [('''',
       [(''ip'', JStr ''10.0.0.9''), (''name'', JStr ''''), (''mac'', JStr ''''),
        (''key'', JStr ''''), (''id'', JStr '''')])],
     newdevices = [''''], retrydevices = [('''', 5)], retrytimer = 0,
     cloudconfig = [], bridge_calls = 0, cloud_contacts = 0\<rparr>"

definition cfg_full :: jobj where
  "cfg_full = [(''apiKey'', JStr ''k''), (''apiSecret'', JStr ''s''),
               (''apiRegion'', JStr ''eu''), (''apiDeviceID'', JStr ''d'')]"

definition ext_cloud :: extern where
  "ext_cloud = \<lparr>unquote = (\<lambda>s. s), float_raises = (\<lambda>v. False),
     device = (\<lambda>d c. Inr JNull), cloud = (\<lambda>n cfg. CloudDevices [rec_plug, rec_lamp])\<rparr>"

text \<open>
  \<open>st_cfg\<close>: the device \<open>abc123\<close> has been seen and is pending, the cloud is
  configured.  \<open>st_forced\<close> is the state after a GET of \<^verbatim>\<open>/sync\<close> at time 0,
  \<open>st_resolved\<close> the state after the next round of the main loop.
\<close>

definition st_cfg :: server_state where
  "st_cfg = st_seen\<lparr>cloudconfig := cfg_full\<rparr>"

definition st_forced :: server_state where
  "st_forced = st_cfg\<lparr>tuyadevices := [rec_plug, rec_lamp], retrytimer := 30,
     retrydevices := [(''abc123'', 5), (''*'', 1)], bridge_calls := 1, cloud_contacts := 1\<rparr>"

definition st_resolved :: server_state where
  "st_resolved = st_forced\<lparr>deviceslist := [(''abc123'', entry_plug)], newdevices := [],
     retrydevices := []\<rparr>"

text \<open>
  States for the retry countdown.  \<open>st_init\<close> is the state at start-up with no
  devices.json and the default cloud configuration; \<open>pkt_first\<close> is the first
  announcement of \<open>abc123\<close>; \<open>st_first\<close> is the state after it, \<open>st_expired\<close>
  the state after five rounds of the main loop, 31 seconds apart.
\<close>

definition cfg_default :: jobj where
  "cfg_default = [(''apiKey'', JStr ''''), (''apiSecret'', JStr ''''),
                  (''apiRegion'', JStr ''''), (''apiDeviceID'', JStr '''')]"

definition st_init :: server_state where
  "st_init = \<lparr>tuyadevices = [], deviceslist = [], newdevices = [], retrydevices = [],
     retrytimer = 0, cloudconfig = cfg_default, bridge_calls = 0, cloud_contacts = 0\<rparr>"

definition pkt_first :: jobj where
  "pkt_first = [(''ip'', JStr ''10.0.0.5''), (''gwId'', JStr ''abc123''), (''version'', JStr ''3.3'')]"

definition entry_first :: jobj where
  "entry_first = [(''ip'', JStr ''10.0.0.5''), (''gwId'', JStr ''abc123''), (''version'', JStr ''3.3''),
     (''name'', JStr ''''), (''mac'', JStr ''''), (''key'', JStr ''''), (''id'', JStr ''abc123'')]"

definition st_first :: server_state where
  "st_first = st_init\<lparr>deviceslist := [(''abc123'', entry_first)], newdevices := [''abc123''],
     retrydevices := [(''abc123'', 5)]\<rparr>"

definition five_ticks :: "action list" where
  "five_ticks = [Tick 0 0, Tick 31 31, Tick 62 62, Tick 93 93, Tick 124 124]"

definition st_expired :: server_state where
  "st_expired = st_first\<lparr>retrydevices := [], retrytimer := 154, bridge_calls := 5\<rparr>"

text \<open>
  States for a resolution after expiry.  In \<open>st_last\<close> the device has its last
  count; \<open>st_gone\<close> is the state after the pass that expires it; \<open>st_synced\<close> is
  the state after the request \<^verbatim>\<open>/cloudconfig/k/s/eu/d\<close> at time 40 with a cloud that
  knows the device; \<open>st_late\<close> is the state after the next round of the main loop.
\<close>

definition st_last :: server_state where
  "st_last = st_first\<lparr>retrydevices := [(''abc123'', 1)]\<rparr>"

definition st_gone :: server_state where
  "st_gone = st_first\<lparr>retrydevices := [], retrytimer := 30, bridge_calls := 1\<rparr>"

definition st_synced :: server_state where
  "st_synced = st_gone\<lparr>tuyadevices := [rec_plug, rec_lamp], cloudconfig := cfg_full,
     retrydevices := [(''*'', 1)], retrytimer := 70, bridge_calls := 2, cloud_contacts := 1\<rparr>"

definition st_late :: server_state where
  "st_late = st_synced\<lparr>deviceslist := [(''abc123'', entry_plug)], newdevices := [],
     retrydevices := []\<rparr>"

section \<open>Repeated sightings of a device\<close>

text \<open>
  Claim C1, as the code has it: an announcement whose device id is already a key of the
  registry changes nothing.  \<^verbatim>\<open>appenddevice\<close> returns True before it stores anything,
  so the entry keeps the ip of the first sighting; the registry, the pending table and
  the list of new devices are the ones from before.  Processing the same announcement
  again is therefore idempotent, and the first sighting wins.
\<close>

theorem C1_known_id_leaves_registry:
  assumes "announcement addr_ip decoded = Inr (result, gwId)"
    and "gwId \<in> keys (deviceslist st)"
  shows "tuyalisten addr_ip decoded st = Inr st"
  using assms
  by (simp add: tuyalisten_def appenddevice_def split: prod.splits)

theorem C1_known_id_leaves_registry_witness:
  "announcement ''10.0.0.6'' (Some (JObj pkt_moved)) = Inr (pkt_moved, ''abc123'')
   \<and> ''abc123'' \<in> keys (deviceslist st_seen)
   \<and> tuyalisten ''10.0.0.6'' (Some (JObj pkt_moved)) st_seen = Inr st_seen"
proof -
  have a: "announcement ''10.0.0.6'' (Some (JObj pkt_moved)) = Inr (pkt_moved, ''abc123'')"
    by (simp add: announcement_def pkt_moved_def)
  have b: "''abc123'' \<in> keys (deviceslist st_seen)"
    by (simp add: st_seen_def keys_def)
  show ?thesis
    using a b C1_known_id_leaves_registry [OF a b] by simp
qed

text \<open>
  Claim C1 as stated fails: the device \<open>abc123\<close> was first seen at 10.0.0.5 and
  announces itself again from 10.0.0.6.  The listener returns the state it was given,
  and the entry's ip is the one of the first sighting, not the announced one.
\<close>

theorem C1_last_write_wins_counterexample:
  "tuyalisten ''10.0.0.6'' (Some (JObj pkt_moved)) st_seen = Inr st_seen
   \<and> map_of pkt_moved ''ip'' = Some (JStr ''10.0.0.6'')
   \<and> map_option (\<lambda>e. map_of e ''ip'') (map_of (deviceslist st_seen) ''abc123'')
       = Some (Some (JStr ''10.0.0.5''))"
  by (simp add: tuyalisten_def announcement_def appenddevice_def lookup_or_blank_def
      set_values_def keys_def st_seen_def pkt_moved_def)

section \<open>The Cloud Sync Bridge without configuration\<close>

lemma any_empty_True:
  "list_all (\<lambda>k. map_of cfg k \<noteq> None) ks \<Longrightarrow>
   list_ex (\<lambda>k. map_of cfg k = Some (JStr '''')) ks \<Longrightarrow>
   any_empty cfg ks = Inr True"
  by (induction ks) fastforce+

text \<open>
  Claim C7: when the configuration has its four fields and one of them is the empty
  string, \<^verbatim>\<open>tuyaCloudRefresh\<close> returns the error object; the state it leaves differs
  from the one before only in the count of calls of the bridge, so the Cloud Client was
  not contacted and the credential records are the ones from before.
\<close>

theorem C7_missing_config:
  assumes "list_all (\<lambda>k. map_of (cloudconfig st) k \<noteq> None) config_fields"
    and "list_ex (\<lambda>k. map_of (cloudconfig st) k = Some (JStr '''')) config_fields"
  shows "tuyaCloudRefresh ext st
           = Inr (JObj [(''Error'', JStr ''Cloud API config missing'')], called st)
         \<and> tuyadevices (called st) = tuyadevices st
         \<and> cloud_contacts (called st) = cloud_contacts st"
  using any_empty_True [OF assms] by (simp add: tuyaCloudRefresh_def called_def)

theorem C7_missing_config_witness:
  "list_all (\<lambda>k. map_of (cloudconfig st_plug) k \<noteq> None) config_fields
   \<and> list_ex (\<lambda>k. map_of (cloudconfig st_plug) k = Some (JStr '''')) config_fields
   \<and> tuyaCloudRefresh ext_ok st_plug
       = Inr (JObj [(''Error'', JStr ''Cloud API config missing'')], called st_plug)
   \<and> tuyadevices (called st_plug) = [rec_plug, rec_lamp]
   \<and> cloud_contacts (called st_plug) = 0"
proof -
  have a: "list_all (\<lambda>k. map_of (cloudconfig st_plug) k \<noteq> None) config_fields"
    by (simp add: st_plug_def config_fields_def)
  have b: "list_ex (\<lambda>k. map_of (cloudconfig st_plug) k = Some (JStr '''')) config_fields"
    by (simp add: st_plug_def config_fields_def)
  have c: "tuyadevices st_plug = [rec_plug, rec_lamp]" "cloud_contacts st_plug = 0"
    by (simp_all add: st_plug_def)
  show ?thesis
    using a b c C7_missing_config [OF a b, of ext_ok] by simp
qed

section \<open>The offline list\<close>

lemma keys_update: "keys (AList.update k v al) = insert k (keys al)"
  by (simp add: keys_def dom_update)

lemma credential_ids_Cons: "credential_ids (x # tds) = set (record_id x) \<union> credential_ids tds"
  by (simp add: credential_ids_def)

lemma offline_loop_keys:
  "list_all wf_record tds \<Longrightarrow>
   \<exists>off'. offline_loop tds dl off = Inr off'
     \<and> keys off' = keys off \<union> (credential_ids tds - keys dl)"
proof (induction tds arbitrary: off)
  case Nil
  then show ?case by (simp add: credential_ids_def)
next
  case (Cons x tds)
  then have wf: "wf_record x" and rest: "list_all wf_record tds" by simp_all
  show ?case
  proof (cases x)
    case (JObj d)
    with wf obtain i n where i: "map_of d ''id'' = Some (JStr i)" and n: "map_of d ''name'' = Some n"
      by (auto split: option.splits json.splits)
    show ?thesis
    proof (cases "i \<in> keys dl")
      case True
      with Cons.IH [OF rest, of off] JObj i show ?thesis
        by (auto simp: credential_ids_Cons)
    next
      case False
      let ?e = "case map_of d ''mac'' of Some m \<Rightarrow> [(''name'', n), (''mac'', m)] | None \<Rightarrow> [(''name'', n)]"
      from Cons.IH [OF rest, of "AList.update i ?e off"] JObj i n False show ?thesis
        by (auto simp: credential_ids_Cons keys_update)
    qed
  qed (use Cons.IH [OF rest, of off] in \<open>simp_all add: credential_ids_Cons\<close>)
qed

lemma keys_dumps: "keys (map (\<lambda>(k, e). (k, JObj e)) d) = keys d"
  by (force simp: keys_def)

text \<open>
  Claim C6: with credential records that \<^verbatim>\<open>offlineDevices\<close> can read, a GET of
  \<^verbatim>\<open>/offline\<close> answers with an object whose keys are the ids of the credential
  records that are not keys of the registry; the state is unchanged and no Device Client
  is used.
\<close>

theorem C6_offline_difference:
  assumes "list_all wf_record (tuyadevices st)"
  shows "\<exists>obj. do_GET ext now st ''/offline'' = Inr (Json (JObj obj), st, [])
           \<and> keys obj = credential_ids (tuyadevices st) - keys (deviceslist st)"
proof -
  obtain off where o: "offline_loop (tuyadevices st) (deviceslist st) [] = Inr off"
    and k: "keys off = credential_ids (tuyadevices st) - keys (deviceslist st)"
    using offline_loop_keys [OF assms, of "deviceslist st" "[]"] by (auto simp: keys_def)
  have "do_GET ext now st ''/offline'' = Inr (dumps_dict off, st, [])"
    using o by (simp add: do_GET_def startswith_def offlineDevices_def)
  then show ?thesis
    using k by (simp add: dumps_dict_def keys_dumps)
qed

theorem C6_offline_difference_witness:
  "list_all wf_record (tuyadevices st_plug)
   \<and> credential_ids (tuyadevices st_plug) - keys (deviceslist st_plug) = {''zzz999''}
   \<and> (\<exists>obj. do_GET ext_ok 0 st_plug ''/offline'' = Inr (Json (JObj obj), st_plug, [])
         \<and> keys obj = {''zzz999''})"
proof -
  have a: "list_all wf_record (tuyadevices st_plug)"
    by (simp add: st_plug_def rec_plug_def rec_lamp_def)
  have b: "credential_ids (tuyadevices st_plug) - keys (deviceslist st_plug) = {''zzz999''}"
    by (simp add: st_plug_def rec_plug_def rec_lamp_def credential_ids_def keys_def)
  show ?thesis
    using a b C6_offline_difference [OF a, of ext_ok 0] by simp
qed

section \<open>Replies and sessions of the control branches\<close>

text \<open>
  Claim C3, evaluated: \<^verbatim>\<open>unknownid\<close> is neither a key of the registry nor the name of
  an entry.  The branch has replaced \<open>id\<close> by the result of \<^verbatim>\<open>getDeviceIdByName\<close>,
  which is False, before it builds the error object, so the object carries
  \<^verbatim>\<open>false\<close> and not the token of the request.
\<close>

theorem C3_turnoff_unknown_reply:
  "do_GET ext_ok 0 st_plug ''/turnoff/unknownid''
     = Inr (Json (JObj [(''Error'', JStr ''Device ID not found.''), (''id'', JBool False)]),
            st_plug, [])"
  by (simp add: do_GET_def startswith_def handle_turnoff_def switch_branch_def resolve_id_def
      getDeviceIdByName_def in_registry_def not_found_def keys_def st_plug_def ext_ok_def
      entry_plug_def)

text \<open>
  Claim C2, evaluated: the device is in the registry and its operation raises.  In each
  of the four branches the events end with the operation: \<^verbatim>\<open>d.close()\<close> is the next
  statement of the \<^verbatim>\<open>try\<close> block and is skipped, and the \<^verbatim>\<open>except\<close> clause only
  builds the error message.  The last line is a request for the entry that an
  undecodable datagram left under the empty id: the client is built, reading
  \<^verbatim>\<open>version\<close> raises KeyError, and nothing closes the client.
\<close>

theorem C2_session_left_open:
  "do_GET ext_raise 0 st_plug ''/turnoff/abc123''
     = Inr (error_sending (JStr ''abc123''), st_plug,
            [Open ''abc123'' (JStr ''10.0.0.5'') (JStr ''K''), Set_version (JStr ''3.3''),
             Call (Turn_off (JInt 1))])
   \<and> do_GET ext_raise 0 st_plug ''/turnon/abc123''
     = Inr (error_sending (JStr ''abc123''), st_plug,
            [Open ''abc123'' (JStr ''10.0.0.5'') (JStr ''K''), Set_version (JStr ''3.3''),
             Call (Turn_on (JInt 1))])
   \<and> do_GET ext_raise 0 st_plug ''/status/abc123''
     = Inr (Json (JObj [(''Error'', JStr ''Error polling device.''), (''id'', JStr ''abc123'')]),
            st_plug,
            [Open ''abc123'' (JStr ''10.0.0.5'') (JStr ''K''), Set_version (JStr ''3.3''),
             Call Status])
   \<and> do_GET ext_raise 0 st_plug ''/set/abc123/1/true''
     = Inr (Json (JObj [(''Error'', JStr ''Syntax error in set command URL.''),
                        (''url'', JStr ''/set/abc123/1/true'')]),
            st_plug,
            [Open ''abc123'' (JStr ''10.0.0.5'') (JStr ''K''), Set_version (JStr ''3.3''),
             Call (Set_value ''1'' (JBool True))])
   \<and> do_GET ext_ok 0 st_garbled ''/turnoff/''
     = Inr (error_sending (JStr ''''), st_garbled, [Open '''' (JStr ''10.0.0.9'') (JStr '''')])"
proof -
  note defs = do_GET_def startswith_def resolve_id_def getDeviceIdByName_def in_registry_def
    device_command_def open_device_def keys_def st_plug_def ext_raise_def entry_plug_def
  have 1: "do_GET ext_raise 0 st_plug ''/turnoff/abc123''
     = Inr (error_sending (JStr ''abc123''), st_plug,
            [Open ''abc123'' (JStr ''10.0.0.5'') (JStr ''K''), Set_version (JStr ''3.3''),
             Call (Turn_off (JInt 1))])"
    by (simp add: defs handle_turnoff_def switch_branch_def)
  have 2: "do_GET ext_raise 0 st_plug ''/turnon/abc123''
     = Inr (error_sending (JStr ''abc123''), st_plug,
            [Open ''abc123'' (JStr ''10.0.0.5'') (JStr ''K''), Set_version (JStr ''3.3''),
             Call (Turn_on (JInt 1))])"
    by (simp add: defs handle_turnon_def switch_branch_def)
  have 3: "do_GET ext_raise 0 st_plug ''/status/abc123''
     = Inr (Json (JObj [(''Error'', JStr ''Error polling device.''), (''id'', JStr ''abc123'')]),
            st_plug,
            [Open ''abc123'' (JStr ''10.0.0.5'') (JStr ''K''), Set_version (JStr ''3.3''),
             Call Status])"
    by (simp add: defs handle_status_def status_try_def)
  have 4: "do_GET ext_raise 0 st_plug ''/set/abc123/1/true''
     = Inr (Json (JObj [(''Error'', JStr ''Syntax error in set command URL.''),
                        (''url'', JStr ''/set/abc123/1/true'')]),
            st_plug,
            [Open ''abc123'' (JStr ''10.0.0.5'') (JStr ''K''), Set_version (JStr ''3.3''),
             Call (Set_value ''1'' (JBool True))])"
    by (simp add: defs handle_set_def set_try_def set_target_def coerce_value_def lower_def
        lower_char_def isnumeric_def isnumeric_char_def isdecimal_char_def)
  have 5: "do_GET ext_ok 0 st_garbled ''/turnoff/''
     = Inr (error_sending (JStr ''''), st_garbled, [Open '''' (JStr ''10.0.0.9'') (JStr '''')])"
    by (simp add: do_GET_def startswith_def resolve_id_def in_registry_def device_command_def
        open_device_def keys_def st_garbled_def ext_ok_def handle_turnoff_def switch_branch_def)
  from 1 2 3 4 5 show ?thesis by blast
qed

section \<open>The two loops of a resolution pass\<close>

lemma keys_map_of: "k \<in> keys al \<longleftrightarrow> map_of al k \<noteq> None"
  by (simp add: keys_def map_of_eq_None_iff)

lemma keys_delete: "keys (AList.delete k al) = keys al - {k}"
  by (auto simp: keys_def AList.delete_eq)

lemma delete_if_present: "(if k \<in> keys al then AList.delete k al else al) = AList.delete k al"
  by (simp add: keys_def)

lemma resolve_new_hit:
  "hit tds devid \<Longrightarrow>
   resolve_new tds (devid # rest) dl rd f =
     (case map_of dl devid of
        None \<Rightarrow> Inl KeyError
      | Some e \<Rightarrow>
          resolve_new tds rest (AList.update devid (resolved tds devid e) dl)
            (AList.delete devid rd) (f @ [devid]))"
  by (auto simp: hit_def resolved_def keys_def split: prod.splits option.splits)

lemma resolve_new_miss:
  "\<not> hit tds devid \<Longrightarrow> resolve_new tds (devid # rest) dl rd f = resolve_new tds rest dl rd f"
  by (auto simp: hit_def split: prod.splits)

lemmas resolve_new_step = resolve_new_hit resolve_new_miss

lemma resolve_new_found:
  "resolve_new tds nd dl rd f = Inr (dl', rd', f') \<Longrightarrow> f' = f @ filter (hit tds) nd"
proof (induction nd arbitrary: dl rd f)
  case Nil
  then show ?case by simp
next
  case (Cons devid nd)
  show ?case
  proof (cases "hit tds devid")
    case True
    with Cons.prems obtain e where
      "resolve_new tds nd (AList.update devid (resolved tds devid e) dl)
         (AList.delete devid rd) (f @ [devid]) = Inr (dl', rd', f')"
      by (auto simp: resolve_new_hit simp del: resolve_new.simps split: option.splits)
    from Cons.IH [OF this] True show ?thesis by simp
  next
    case False
    with Cons.prems have "resolve_new tds nd dl rd f = Inr (dl', rd', f')"
      by (simp add: resolve_new_miss del: resolve_new.simps)
    from Cons.IH [OF this] False show ?thesis by simp
  qed
qed

lemma resolve_new_retry:
  "resolve_new tds nd dl rd f = Inr (dl', rd', f') \<Longrightarrow>
   map_of rd' d = (if d \<in> set nd \<and> hit tds d then None else map_of rd d)"
proof (induction nd arbitrary: dl rd f)
  case Nil
  then show ?case by simp
next
  case (Cons devid nd)
  show ?case
  proof (cases "hit tds devid")
    case True
    with Cons.prems obtain e where
      "resolve_new tds nd (AList.update devid (resolved tds devid e) dl)
         (AList.delete devid rd) (f @ [devid]) = Inr (dl', rd', f')"
      by (auto simp: resolve_new_hit simp del: resolve_new.simps split: option.splits)
    from Cons.IH [OF this] True show ?thesis
      by (auto simp: delete_conv')
  next
    case False
    with Cons.prems have "resolve_new tds nd dl rd f = Inr (dl', rd', f')"
      by (simp add: resolve_new_miss del: resolve_new.simps)
    from Cons.IH [OF this] False show ?thesis by auto
  qed
qed

lemma resolve_new_keys:
  "resolve_new tds nd dl rd f = Inr (dl', rd', f') \<Longrightarrow> map fst dl' = map fst dl"
proof (induction nd arbitrary: dl rd f)
  case Nil
  then show ?case by simp
next
  case (Cons devid nd)
  show ?case
  proof (cases "hit tds devid")
    case True
    with Cons.prems obtain e where e: "map_of dl devid = Some e" and
      "resolve_new tds nd (AList.update devid (resolved tds devid e) dl)
         (AList.delete devid rd) (f @ [devid]) = Inr (dl', rd', f')"
      by (auto simp: resolve_new_hit simp del: resolve_new.simps split: option.splits)
    from Cons.IH [OF this(2)] have
      "map fst dl' = map fst (AList.update devid (resolved tds devid e) dl)" .
    moreover from e have "devid \<in> set (map fst dl)"
      using keys_map_of [of devid dl] by (simp add: keys_def)
    ultimately show ?thesis by (simp add: update_keys)
  next
    case False
    with Cons.prems have "resolve_new tds nd dl rd f = Inr (dl', rd', f')"
      by (simp add: resolve_new_miss del: resolve_new.simps)
    from Cons.IH [OF this] show ?thesis .
  qed
qed

lemma resolve_new_other:
  "resolve_new tds nd dl rd f = Inr (dl', rd', f') \<Longrightarrow> d \<notin> set nd \<or> \<not> hit tds d \<Longrightarrow>
   map_of dl' d = map_of dl d"
proof (induction nd arbitrary: dl rd f)
  case Nil
  then show ?case by simp
next
  case (Cons devid nd)
  from Cons.prems(2) have d: "d \<notin> set nd \<or> \<not> hit tds d" by auto
  show ?case
  proof (cases "hit tds devid")
    case True
    with Cons.prems(2) have ne: "d \<noteq> devid" by auto
    from True Cons.prems(1) obtain e where
      "resolve_new tds nd (AList.update devid (resolved tds devid e) dl)
         (AList.delete devid rd) (f @ [devid]) = Inr (dl', rd', f')"
      by (auto simp: resolve_new_hit simp del: resolve_new.simps split: option.splits)
    from Cons.IH [OF this d] ne show ?thesis
      by (simp add: update_conv')
  next
    case False
    with Cons.prems have "resolve_new tds nd dl rd f = Inr (dl', rd', f')"
      by (simp add: resolve_new_miss del: resolve_new.simps)
    from Cons.IH [OF this d] show ?thesis .
  qed
qed

lemma attached_resolved: "attached tds d (resolved tds d e)"
  by (simp add: attached_def resolved_def resolved_entry_def update_conv' split: prod.splits)

lemma resolve_new_attached:
  "resolve_new tds nd dl rd f = Inr (dl', rd', f') \<Longrightarrow> d \<in> set nd \<Longrightarrow> hit tds d \<Longrightarrow>
   \<exists>e. map_of dl' d = Some e \<and> attached tds d e"
proof (induction nd arbitrary: dl rd f)
  case Nil
  then show ?case by simp
next
  case (Cons devid nd)
  show ?case
  proof (cases "d \<in> set nd")
    case True
    show ?thesis
    proof (cases "hit tds devid")
      case h: True
      with Cons.prems(1) obtain e where
        "resolve_new tds nd (AList.update devid (resolved tds devid e) dl)
           (AList.delete devid rd) (f @ [devid]) = Inr (dl', rd', f')"
        by (auto simp: resolve_new_hit simp del: resolve_new.simps split: option.splits)
      from Cons.IH [OF this True Cons.prems(3)] show ?thesis .
    next
      case False
      with Cons.prems have "resolve_new tds nd dl rd f = Inr (dl', rd', f')"
        by (simp add: resolve_new_miss del: resolve_new.simps)
      from Cons.IH [OF this True Cons.prems(3)] show ?thesis .
    qed
  next
    case False
    with Cons.prems have eq: "devid = d" by simp
    from Cons.prems(1,3) eq obtain e where
      r: "resolve_new tds nd (AList.update d (resolved tds d e) dl)
           (AList.delete d rd) (f @ [d]) = Inr (dl', rd', f')"
      by (auto simp: resolve_new_hit simp del: resolve_new.simps split: option.splits)
    from resolve_new_other [OF r, of d] False have
      "map_of dl' d = Some (resolved tds d e)"
      by (simp add: update_conv')
    with attached_resolved show ?thesis by simp
  qed
qed

lemma resolve_new_total:
  "list_all (\<lambda>d. d \<in> keys dl) nd \<Longrightarrow> \<exists>r. resolve_new tds nd dl rd f = Inr r"
proof (induction nd arbitrary: dl rd f)
  case Nil
  then show ?case by simp
next
  case (Cons devid nd)
  then have a: "devid \<in> keys dl" and b: "list_all (\<lambda>d. d \<in> keys dl) nd" by simp_all
  from a obtain e where e: "map_of dl devid = Some e" by (auto simp: keys_map_of)
  have b': "list_all (\<lambda>d. d \<in> keys (AList.update devid (resolved tds devid e) dl)) nd"
    using b by (simp add: keys_def dom_update list_all_iff)
  show ?case
  proof (cases "hit tds devid")
    case True
    with e Cons.IH [OF b'] show ?thesis
      by (simp add: resolve_new_hit del: resolve_new.simps)
  next
    case False
    with Cons.IH [OF b] show ?thesis
      by (simp add: resolve_new_miss del: resolve_new.simps)
  qed
qed

lemma resolve_new_distinct:
  "resolve_new tds nd dl rd f = Inr (dl', rd', f') \<Longrightarrow> distinct (map fst rd) \<Longrightarrow>
   distinct (map fst rd')"
proof (induction nd arbitrary: dl rd f)
  case Nil
  then show ?case by simp
next
  case (Cons devid nd)
  show ?case
  proof (cases "hit tds devid")
    case True
    with Cons.prems(1) obtain e where
      "resolve_new tds nd (AList.update devid (resolved tds devid e) dl)
         (AList.delete devid rd) (f @ [devid]) = Inr (dl', rd', f')"
      by (auto simp: resolve_new_hit simp del: resolve_new.simps split: option.splits)
    from Cons.IH [OF this] Cons.prems(2) show ?thesis
      by (simp add: distinct_delete)
  next
    case False
    with Cons.prems have "resolve_new tds nd dl rd f = Inr (dl', rd', f')"
      by (simp add: resolve_new_miss del: resolve_new.simps)
    from Cons.IH [OF this Cons.prems(2)] show ?thesis .
  qed
qed

lemma fold_remove1_filter:
  "\<forall>y\<in>set ys. \<not> P y \<Longrightarrow> fold remove1 (filter P xs) (ys @ xs) = ys @ filter (\<lambda>x. \<not> P x) xs"
proof (induction xs arbitrary: ys)
  case Nil
  then show ?case by simp
next
  case (Cons x xs)
  show ?case
  proof (cases "P x")
    case True
    with Cons.prems have "x \<notin> set ys" by auto
    then have "remove1 x (ys @ x # xs) = ys @ xs" by (simp add: remove1_append)
    with True Cons.IH [OF Cons.prems] show ?thesis by simp
  next
    case False
    with Cons.prems have "\<forall>y\<in>set (ys @ [x]). \<not> P y" by auto
    from Cons.IH [OF this] False show ?thesis by simp
  qed
qed

lemma fold_remove1_found: "fold remove1 (filter P xs) xs = filter (\<lambda>x. \<not> P x) xs"
  using fold_remove1_filter [of "[]" P xs] by simp

lemma map_of_fold_delete:
  "map_of (fold AList.delete ks al) d = (if d \<in> set ks then None else map_of al d)"
  by (induction ks arbitrary: al) (auto simp: delete_conv')

lemma distinct_fold_delete:
  "distinct (map fst al) \<Longrightarrow> distinct (map fst (fold AList.delete ks al))"
  by (induction ks arbitrary: al) (auto simp: distinct_delete)

lemma map_of_decrement: "map_of (decrement rd) d = map_option (\<lambda>n. n - 1) (map_of rd d)"
  by (induction rd) (auto simp: decrement_def)

lemma fst_decrement: "map fst (decrement rd) = map fst rd"
  by (induction rd) (auto simp: decrement_def)

lemma in_expired:
  "distinct (map fst al) \<Longrightarrow> d \<in> set (expired al) \<longleftrightarrow> (\<exists>n. map_of al d = Some n \<and> n < 1)"
  by (force simp: expired_def image_iff)

lemma map_of_countdown:
  assumes "distinct (map fst rd)"
  shows "map_of (countdown rd) d =
     (case map_of rd d of None \<Rightarrow> None | Some n \<Rightarrow> if n - 1 < 1 then None else Some (n - 1))"
proof -
  have dd: "distinct (map fst (decrement rd))"
    using assms by (simp add: fst_decrement)
  have c: "map_of (countdown rd) d =
      (if d \<in> set (expired (decrement rd)) then None else map_of (decrement rd) d)"
    by (simp add: countdown_def map_of_fold_delete)
  have e: "d \<in> set (expired (decrement rd)) \<longleftrightarrow>
      (\<exists>n. map_option (\<lambda>n. n - 1) (map_of rd d) = Some n \<and> n < 1)"
    using in_expired [OF dd, of d] by (simp only: map_of_decrement)
  show ?thesis
  proof (cases "map_of rd d")
    case None
    with c e show ?thesis by (simp add: map_of_decrement)
  next
    case (Some n)
    with c e show ?thesis by (simp add: map_of_decrement)
  qed
qed

lemma distinct_countdown: "distinct (map fst rd) \<Longrightarrow> distinct (map fst (countdown rd))"
  by (simp add: countdown_def distinct_fold_delete fst_decrement)

section \<open>A resolution pass as a whole\<close>

lemma consistent_iff:
  "consistent st \<longleftrightarrow>
     distinct (map fst (retrydevices st))
     \<and> set (newdevices st) \<subseteq> keys (deviceslist st)
     \<and> (\<forall>d n. map_of (retrydevices st) d = Some n \<longrightarrow>
           d = ''*'' \<or> (d \<in> set (newdevices st) \<and> blank_entry (deviceslist st) d))"
proof (cases "distinct (map fst (retrydevices st))")
  case True
  then have m: "map_of (retrydevices st) d = Some n \<longleftrightarrow> (d, n) \<in> set (retrydevices st)" for d n
    by simp
  have a: "list_all (\<lambda>devid. devid \<in> keys (deviceslist st)) (newdevices st)
      \<longleftrightarrow> set (newdevices st) \<subseteq> keys (deviceslist st)"
    by (auto simp: list_all_iff)
  have b: "list_all (\<lambda>(devid, n). devid = ''*''
                     \<or> (devid \<in> set (newdevices st) \<and> blank_entry (deviceslist st) devid))
           (retrydevices st)
      \<longleftrightarrow> (\<forall>d n. (d, n) \<in> set (retrydevices st) \<longrightarrow>
           d = ''*'' \<or> (d \<in> set (newdevices st) \<and> blank_entry (deviceslist st) d))"
    by (simp add: list_all_iff split_beta) (metis fst_conv prod.collapse)
  show ?thesis
    by (simp only: consistent_def a b m)
next
  case False
  then show ?thesis by (simp add: consistent_def)
qed

lemma keys_fst: "keys al = set (map fst al)"
  by (simp add: keys_def)

lemma main_iteration_pass:
  "main_iteration ext now now2 st =
     (if pass_due now st then resolution_pass ext now2 st else Inr st)"
  by (auto simp: main_iteration_def pass_due_def)

lemma rae_total:
  assumes "consistent st"
  shows "\<exists>st'. resolve_and_expire st = Inr st'"
proof -
  from assms have "list_all (\<lambda>d. d \<in> keys (deviceslist st)) (newdevices st)"
    by (simp add: consistent_def)
  from resolve_new_total [OF this, of "tuyadevices st" "retrydevices st" "[]"]
  show ?thesis by (auto simp: resolve_and_expire_def)
qed

lemma rae_cases:
  assumes "resolve_and_expire st = Inr st'"
  obtains dl rd where
    "resolve_new (tuyadevices st) (newdevices st) (deviceslist st) (retrydevices st) []
       = Inr (dl, rd, filter (hit (tuyadevices st)) (newdevices st))"
    "st' = st\<lparr>deviceslist := dl,
              newdevices := filter (\<lambda>d. \<not> hit (tuyadevices st) d) (newdevices st),
              retrydevices := countdown rd\<rparr>"
proof -
  from assms obtain dl rd found where
    r: "resolve_new (tuyadevices st) (newdevices st) (deviceslist st) (retrydevices st) []
       = Inr (dl, rd, found)"
    and s: "st' = st\<lparr>deviceslist := dl, newdevices := fold remove1 found (newdevices st),
              retrydevices := countdown rd\<rparr>"
    by (auto simp: resolve_and_expire_def split: sum.splits)
  from resolve_new_found [OF r] have f: "found = filter (hit (tuyadevices st)) (newdevices st)"
    by simp
  from r s f that show ?thesis
    by (simp add: fold_remove1_found)
qed

lemma rae_unchanged:
  assumes "resolve_and_expire st = Inr st'"
  shows "tuyadevices st' = tuyadevices st \<and> retrytimer st' = retrytimer st
   \<and> cloudconfig st' = cloudconfig st \<and> bridge_calls st' = bridge_calls st
   \<and> cloud_contacts st' = cloud_contacts st"
proof -
  from assms obtain dl rd where
    "st' = st\<lparr>deviceslist := dl,
              newdevices := filter (\<lambda>d. \<not> hit (tuyadevices st) d) (newdevices st),
              retrydevices := countdown rd\<rparr>"
    by (rule rae_cases)
  then show ?thesis by simp
qed

lemma rae_newdevices:
  assumes "resolve_and_expire st = Inr st'"
  shows "newdevices st' = filter (\<lambda>d. \<not> hit (tuyadevices st) d) (newdevices st)"
proof -
  from assms obtain dl rd where
    "st' = st\<lparr>deviceslist := dl,
              newdevices := filter (\<lambda>d. \<not> hit (tuyadevices st) d) (newdevices st),
              retrydevices := countdown rd\<rparr>"
    by (rule rae_cases)
  then show ?thesis by simp
qed

lemma rae_registry:
  assumes "resolve_and_expire st = Inr st'"
  obtains rd where
    "resolve_new (tuyadevices st) (newdevices st) (deviceslist st) (retrydevices st) []
       = Inr (deviceslist st', rd, filter (hit (tuyadevices st)) (newdevices st))"
proof -
  from assms obtain dl rd where
    r: "resolve_new (tuyadevices st) (newdevices st) (deviceslist st) (retrydevices st) []
       = Inr (dl, rd, filter (hit (tuyadevices st)) (newdevices st))"
    and s: "st' = st\<lparr>deviceslist := dl,
              newdevices := filter (\<lambda>d. \<not> hit (tuyadevices st) d) (newdevices st),
              retrydevices := countdown rd\<rparr>"
    by (rule rae_cases)
  from s have "deviceslist st' = dl" by simp
  with r that show ?thesis by simp
qed

lemma rae_keys:
  assumes "resolve_and_expire st = Inr st'"
  shows "map fst (deviceslist st') = map fst (deviceslist st)"
proof -
  from assms obtain rd where
    "resolve_new (tuyadevices st) (newdevices st) (deviceslist st) (retrydevices st) []
       = Inr (deviceslist st', rd, filter (hit (tuyadevices st)) (newdevices st))"
    by (rule rae_registry)
  then show ?thesis by (rule resolve_new_keys)
qed

lemma rae_other:
  assumes "resolve_and_expire st = Inr st'"
    and "d \<notin> set (newdevices st) \<or> \<not> hit (tuyadevices st) d"
  shows "map_of (deviceslist st') d = map_of (deviceslist st) d"
proof -
  from assms(1) obtain rd where
    "resolve_new (tuyadevices st) (newdevices st) (deviceslist st) (retrydevices st) []
       = Inr (deviceslist st', rd, filter (hit (tuyadevices st)) (newdevices st))"
    by (rule rae_registry)
  then show ?thesis using assms(2) by (rule resolve_new_other)
qed

lemma rae_attached:
  assumes "resolve_and_expire st = Inr st'"
    and "d \<in> set (newdevices st)" and "hit (tuyadevices st) d"
  shows "\<exists>e. map_of (deviceslist st') d = Some e \<and> attached (tuyadevices st) d e"
proof -
  from assms(1) obtain rd where
    "resolve_new (tuyadevices st) (newdevices st) (deviceslist st) (retrydevices st) []
       = Inr (deviceslist st', rd, filter (hit (tuyadevices st)) (newdevices st))"
    by (rule rae_registry)
  then show ?thesis using assms(2,3) by (rule resolve_new_attached)
qed

lemma rae_retry:
  assumes "resolve_and_expire st = Inr st'" and "distinct (map fst (retrydevices st))"
  shows "map_of (retrydevices st') d =
     (if d \<in> set (newdevices st) \<and> hit (tuyadevices st) d then None
      else (case map_of (retrydevices st) d of
              None \<Rightarrow> None
            | Some n \<Rightarrow> if n - 1 < 1 then None else Some (n - 1)))"
proof -
  from assms(1) obtain dl rd where
    r: "resolve_new (tuyadevices st) (newdevices st) (deviceslist st) (retrydevices st) []
       = Inr (dl, rd, filter (hit (tuyadevices st)) (newdevices st))"
    and s: "retrydevices st' = countdown rd"
    by (rule rae_cases) simp
  from resolve_new_distinct [OF r assms(2)] have d: "distinct (map fst rd)" .
  show ?thesis
    by (simp add: s map_of_countdown [OF d] resolve_new_retry [OF r])
qed

lemma rae_distinct:
  assumes "resolve_and_expire st = Inr st'" and "distinct (map fst (retrydevices st))"
  shows "distinct (map fst (retrydevices st'))"
proof -
  from assms(1) obtain dl rd where
    r: "resolve_new (tuyadevices st) (newdevices st) (deviceslist st) (retrydevices st) []
       = Inr (dl, rd, filter (hit (tuyadevices st)) (newdevices st))"
    and s: "retrydevices st' = countdown rd"
    by (rule rae_cases) simp
  from resolve_new_distinct [OF r assms(2)] show ?thesis
    by (simp add: s distinct_countdown)
qed

lemma rae_consistent:
  assumes c: "consistent st" and r: "resolve_and_expire st = Inr st'"
  shows "consistent st'"
proof -
  from c have d: "distinct (map fst (retrydevices st))"
    and n: "set (newdevices st) \<subseteq> keys (deviceslist st)"
    and p: "\<And>d n. map_of (retrydevices st) d = Some n \<Longrightarrow>
           d = ''*'' \<or> (d \<in> set (newdevices st) \<and> blank_entry (deviceslist st) d)"
    by (auto simp: consistent_iff)
  have 1: "distinct (map fst (retrydevices st'))"
    by (rule rae_distinct [OF r d])
  have 2: "set (newdevices st') \<subseteq> keys (deviceslist st')"
    using n by (auto simp: rae_newdevices [OF r] keys_fst rae_keys [OF r])
  have 3: "d = ''*'' \<or> (d \<in> set (newdevices st') \<and> blank_entry (deviceslist st') d)"
    if "map_of (retrydevices st') d = Some m" for d m
  proof -
    from that rae_retry [OF r d, of d]
    have nh: "\<not> (d \<in> set (newdevices st) \<and> hit (tuyadevices st) d)"
      and "\<exists>k. map_of (retrydevices st) d = Some k"
      by (auto split: if_splits option.splits)
    then obtain k where "map_of (retrydevices st) d = Some k" by blast
    from p [OF this] show ?thesis
    proof
      assume "d = ''*''" then show ?thesis by simp
    next
      assume a: "d \<in> set (newdevices st) \<and> blank_entry (deviceslist st) d"
      with nh have h: "\<not> hit (tuyadevices st) d" by simp
      with a have "d \<in> set (newdevices st')" by (simp add: rae_newdevices [OF r])
      moreover from rae_other [OF r, of d] h a have "blank_entry (deviceslist st') d"
        by (simp add: blank_entry_def)
      ultimately show ?thesis by simp
    qed
  qed
  from 1 2 3 show ?thesis by (simp add: consistent_iff)
qed

lemma ruf_forced:
  "''*'' \<in> keys (retrydevices st) \<Longrightarrow> refresh_unless_forced ext now2 st = Inr st"
  by (simp add: refresh_unless_forced_def)

lemma tuyaCloudRefresh_shared:
  assumes "tuyaCloudRefresh ext st = Inr (r, st1)"
  shows "deviceslist st1 = deviceslist st \<and> newdevices st1 = newdevices st
   \<and> retrydevices st1 = retrydevices st \<and> retrytimer st1 = retrytimer st
   \<and> cloudconfig st1 = cloudconfig st"
proof (cases "any_empty (cloudconfig st) config_fields")
  case (Inl e)
  with assms show ?thesis by (simp add: tuyaCloudRefresh_def)
next
  case (Inr b)
  show ?thesis
  proof (cases b)
    case True
    with Inr assms show ?thesis by (auto simp: tuyaCloudRefresh_def called_def)
  next
    case False
    with Inr assms show ?thesis
      by (cases "cloud ext (cloud_contacts st) (cloudconfig st)")
        (auto simp: tuyaCloudRefresh_def called_def contacted_def)
  qed
qed

lemma ruf_shared:
  assumes "refresh_unless_forced ext now2 st = Inr st1"
  shows "deviceslist st1 = deviceslist st \<and> newdevices st1 = newdevices st
   \<and> retrydevices st1 = retrydevices st"
proof (cases "''*'' \<in> keys (retrydevices st)")
  case True
  with assms show ?thesis by (simp add: refresh_unless_forced_def)
next
  case False
  with assms obtain r st0 where t: "tuyaCloudRefresh ext st = Inr (r, st0)"
    and s: "st1 = st0\<lparr>retrytimer := now2 + RETRYTIME\<rparr>"
    by (auto simp: refresh_unless_forced_def split: sum.splits)
  from tuyaCloudRefresh_shared [OF t] s show ?thesis by simp
qed

lemma consistent_shared:
  "deviceslist st1 = deviceslist st \<Longrightarrow> newdevices st1 = newdevices st \<Longrightarrow>
   retrydevices st1 = retrydevices st \<Longrightarrow> consistent st1 = consistent st"
  by (simp add: consistent_def)

lemma ruf_consistent:
  assumes "refresh_unless_forced ext now2 st = Inr st1"
  shows "consistent st1 = consistent st"
proof -
  from ruf_shared [OF assms] show ?thesis
    by (intro consistent_shared) simp_all
qed

lemma pass_cases:
  assumes "resolution_pass ext now2 st = Inr st'"
  obtains st1 where "refresh_unless_forced ext now2 st = Inr st1"
    and "resolve_and_expire st1 = Inr st'"
  using assms by (auto simp: resolution_pass_def split: sum.splits)

lemma pass_consistent:
  assumes "consistent st" and "resolution_pass ext now2 st = Inr st'"
  shows "consistent st'"
proof -
  from assms(2) obtain st1 where a: "refresh_unless_forced ext now2 st = Inr st1"
    and b: "resolve_and_expire st1 = Inr st'"
    by (rule pass_cases)
  from ruf_consistent [OF a] assms(1) have "consistent st1" by simp
  from rae_consistent [OF this b] show ?thesis .
qed

section \<open>The wildcard entry\<close>

lemma consistent_pending:
  assumes "consistent st" and "d \<in> keys (retrydevices st)" and "d \<noteq> ''*''"
  shows "d \<in> set (newdevices st) \<and> blank_entry (deviceslist st) d"
proof -
  from assms(2) obtain n where "map_of (retrydevices st) d = Some n"
    by (auto simp: keys_map_of)
  with assms(1,3) show ?thesis
    unfolding consistent_iff by blast
qed

lemma consistent_distinct: "consistent st \<Longrightarrow> distinct (map fst (retrydevices st))"
  by (simp add: consistent_def)

lemma consistent_new: "consistent st \<Longrightarrow> d \<in> set (newdevices st) \<Longrightarrow> d \<in> keys (deviceslist st)"
  unfolding consistent_iff by blast

lemma forced_pass:
  assumes "''*'' \<in> keys (retrydevices st)"
  shows "main_iteration ext now now2 st = resolve_and_expire st"
proof -
  from assms have "retrydevices st \<noteq> []" by (auto simp: keys_def)
  with assms have "pass_due now st" by (simp add: pass_due_def)
  with assms show ?thesis
    by (simp add: main_iteration_pass resolution_pass_def ruf_forced)
qed

text \<open>
  Claim C4, as the code has it.  When the wildcard is pending with the count 1 that
  \<^verbatim>\<open>/sync\<close> and \<^verbatim>\<open>/cloudconfig\<close> give it, the next round of the main loop
  runs the pass whatever the clock and the timer say; the pass does not call the bridge
  (the counts of bridge calls and of cloud contacts and the credential records are the
  ones from before: the handler that stored the wildcard has made the call); every
  pending id with credentials in the records is resolved, whatever its count; and the
  wildcard is gone afterwards.
\<close>

theorem C4_forced_pass:
  assumes c: "consistent st" and w: "map_of (retrydevices st) ''*'' = Some 1"
  shows "\<exists>st'. main_iteration ext now now2 st = Inr st'
           \<and> bridge_calls st' = bridge_calls st \<and> cloud_contacts st' = cloud_contacts st
           \<and> tuyadevices st' = tuyadevices st
           \<and> ''*'' \<notin> keys (retrydevices st')
           \<and> (\<forall>d\<in>keys (retrydevices st). d \<noteq> ''*'' \<and> hit (tuyadevices st) d \<longrightarrow>
                 d \<notin> keys (retrydevices st') \<and> d \<notin> set (newdevices st')
                 \<and> (\<exists>e. map_of (deviceslist st') d = Some e \<and> attached (tuyadevices st) d e))"
proof -
  from w have k: "''*'' \<in> keys (retrydevices st)" by (simp add: keys_map_of)
  from rae_total [OF c] obtain st' where r: "resolve_and_expire st = Inr st'" by blast
  from c have d: "distinct (map fst (retrydevices st))" by (simp add: consistent_iff)
  have 1: "main_iteration ext now now2 st = Inr st'"
    using forced_pass [OF k] r by simp
  have 2: "''*'' \<notin> keys (retrydevices st')"
    using rae_retry [OF r d, of "''*''"] w by (simp add: keys_map_of)
  have 3: "d \<notin> keys (retrydevices st') \<and> d \<notin> set (newdevices st')
         \<and> (\<exists>e. map_of (deviceslist st') d = Some e \<and> attached (tuyadevices st) d e)"
    if "d \<in> keys (retrydevices st)" "d \<noteq> ''*''" "hit (tuyadevices st) d" for d
  proof -
    from consistent_pending [OF c that(1,2)] have n: "d \<in> set (newdevices st)" by simp
    from rae_retry [OF r d, of d] n that(3) have "d \<notin> keys (retrydevices st')"
      by (simp add: keys_map_of)
    moreover from that(3) have "d \<notin> set (newdevices st')"
      by (simp add: rae_newdevices [OF r])
    moreover note rae_attached [OF r n that(3)]
    ultimately show ?thesis by simp
  qed
  from 1 2 3 rae_unchanged [OF r] show ?thesis by auto
qed

lemma consistent_st_forced: "consistent st_forced"
  by (simp add: consistent_def st_forced_def st_cfg_def st_seen_def keys_def blank_entry_def blank_def)

theorem C4_forced_pass_witness:
  "consistent st_forced \<and> map_of (retrydevices st_forced) ''*'' = Some 1
   \<and> hit (tuyadevices st_forced) ''abc123''
   \<and> (\<exists>st'. main_iteration ext_cloud 1 1 st_forced = Inr st'
         \<and> bridge_calls st' = 1 \<and> ''*'' \<notin> keys (retrydevices st')
         \<and> ''abc123'' \<notin> keys (retrydevices st')
         \<and> (\<exists>e. map_of (deviceslist st') ''abc123'' = Some e
               \<and> attached (tuyadevices st_forced) ''abc123'' e))"
proof -
  have a: "consistent st_forced" by (rule consistent_st_forced)
  have b: "map_of (retrydevices st_forced) ''*'' = Some 1"
    by (simp add: st_forced_def)
  have h: "hit (tuyadevices st_forced) ''abc123''"
    by (simp add: hit_def lookup_or_blank_def st_forced_def rec_plug_def rec_lamp_def)
  have k: "''abc123'' \<in> keys (retrydevices st_forced)" "bridge_calls st_forced = 1"
    by (simp_all add: st_forced_def keys_def)
  from C4_forced_pass [OF a b, of ext_cloud 1 1] a b h k show ?thesis
    by auto
qed

text \<open>
  Claim C4 as stated fails in (b): the request \<^verbatim>\<open>/sync\<close> calls the bridge once and
  stores the wildcard; the round of the main loop that follows resolves \<open>abc123\<close>
  and removes the wildcard, and the count of bridge calls is still 1: the pass itself
  made none.
\<close>

theorem C4_bridge_once_counterexample:
  "do_GET ext_cloud 0 st_cfg ''/sync''
     = Inr (Json (JObj [(''devices'', JList [rec_plug, rec_lamp])]), st_forced, [])
   \<and> bridge_calls st_cfg = 0 \<and> bridge_calls st_forced = 1
   \<and> main_iteration ext_cloud 1 1 st_forced = Inr st_resolved
   \<and> bridge_calls st_resolved = 1"
proof -
  have 1: "do_GET ext_cloud 0 st_cfg ''/sync''
     = Inr (Json (JObj [(''devices'', JList [rec_plug, rec_lamp])]), st_forced, [])"
    by (simp add: do_GET_def startswith_def handle_sync_def tuyaCloudRefresh_def config_fields_def
        arm_retry_def called_def contacted_def RETRYTIME_def
        st_cfg_def st_seen_def st_forced_def cfg_full_def ext_cloud_def)
  have 2: "main_iteration ext_cloud 1 1 st_forced = Inr st_resolved"
    by (simp add: main_iteration_def resolution_pass_def refresh_unless_forced_def
        resolve_and_expire_def lookup_or_blank_def resolved_entry_def countdown_def decrement_def
        expired_def keys_def st_forced_def st_cfg_def st_seen_def st_resolved_def rec_plug_def
        rec_lamp_def entry_plug_def)
  have 3: "bridge_calls st_cfg = 0" "bridge_calls st_forced = 1" "bridge_calls st_resolved = 1"
    by (simp_all add: st_cfg_def st_seen_def st_forced_def st_resolved_def)
  from 1 2 3 show ?thesis by simp
qed

lemma pass_split:
  assumes "resolution_pass ext t st = Inr st'"
  obtains st1 where "resolve_and_expire st1 = Inr st'"
    and "deviceslist st1 = deviceslist st" and "newdevices st1 = newdevices st"
    and "retrydevices st1 = retrydevices st" and "tuyadevices st1 = tuyadevices st'"
proof -
  from assms obtain st1 where a: "refresh_unless_forced ext t st = Inr st1"
    and b: "resolve_and_expire st1 = Inr st'"
    by (rule pass_cases)
  from ruf_shared [OF a] rae_unchanged [OF b] b that show ?thesis by simp
qed

lemma pass_newdevices:
  assumes "resolution_pass ext t st = Inr st'"
  shows "newdevices st' = filter (\<lambda>d. \<not> hit (tuyadevices st') d) (newdevices st)"
proof -
  from assms obtain st1 where r: "resolve_and_expire st1 = Inr st'"
    and s: "newdevices st1 = newdevices st" "tuyadevices st1 = tuyadevices st'"
    by (rule pass_split)
  from rae_newdevices [OF r] s show ?thesis by simp
qed

lemma pass_retry:
  assumes "resolution_pass ext t st = Inr st'" and "distinct (map fst (retrydevices st))"
  shows "map_of (retrydevices st') d =
     (if d \<in> set (newdevices st) \<and> hit (tuyadevices st') d then None
      else (case map_of (retrydevices st) d of
              None \<Rightarrow> None
            | Some n \<Rightarrow> if n - 1 < 1 then None else Some (n - 1)))"
proof -
  from assms(1) obtain st1 where r: "resolve_and_expire st1 = Inr st'"
    and s: "newdevices st1 = newdevices st" "tuyadevices st1 = tuyadevices st'"
      "retrydevices st1 = retrydevices st"
    by (rule pass_split)
  from assms(2) s have "distinct (map fst (retrydevices st1))" by simp
  from rae_retry [OF r this, of d] s show ?thesis by simp
qed

lemma pass_other:
  assumes "resolution_pass ext t st = Inr st'"
    and "d \<notin> set (newdevices st) \<or> \<not> hit (tuyadevices st') d"
  shows "map_of (deviceslist st') d = map_of (deviceslist st) d"
proof -
  from assms(1) obtain st1 where r: "resolve_and_expire st1 = Inr st'"
    and s: "newdevices st1 = newdevices st" "tuyadevices st1 = tuyadevices st'"
      "deviceslist st1 = deviceslist st"
    by (rule pass_split)
  from assms(2) s have "d \<notin> set (newdevices st1) \<or> \<not> hit (tuyadevices st1) d" by simp
  from rae_other [OF r this] s show ?thesis by simp
qed

lemma pass_attached:
  assumes "resolution_pass ext t st = Inr st'"
    and "d \<in> set (newdevices st)" and "hit (tuyadevices st') d"
  shows "\<exists>e. map_of (deviceslist st') d = Some e \<and> attached (tuyadevices st') d e"
proof -
  from assms(1) obtain st1 where r: "resolve_and_expire st1 = Inr st'"
    and s: "newdevices st1 = newdevices st" "tuyadevices st1 = tuyadevices st'"
    by (rule pass_split)
  from assms(2,3) s have "d \<in> set (newdevices st1)" "hit (tuyadevices st1) d" by simp_all
  from rae_attached [OF r this] s show ?thesis by simp
qed

lemma pass_keys:
  assumes "resolution_pass ext t st = Inr st'"
  shows "keys (deviceslist st') = keys (deviceslist st)"
proof -
  from assms(1) obtain st1 where r: "resolve_and_expire st1 = Inr st'"
    and s: "deviceslist st1 = deviceslist st"
    by (rule pass_split)
  from rae_keys [OF r] s show ?thesis by (simp add: keys_fst)
qed

section \<open>What the listener and the handler do to the shared state\<close>

lemma blank_set_values: "blank (set_values result (JStr '''') mac (JStr '''') gwId)"
  by (simp add: blank_def set_values_def update_conv')

lemma tuyalisten_cases:
  assumes "tuyalisten addr_ip decoded st = Inr st'"
  shows "st' = st
     \<or> (\<exists>g e. g \<notin> keys (deviceslist st)
            \<and> deviceslist st' = AList.update g e (deviceslist st)
            \<and> ((newdevices st' = newdevices st \<and> retrydevices st' = retrydevices st)
                \<or> (blank e \<and> newdevices st' = newdevices st @ [g]
                    \<and> retrydevices st' = AList.update g RETRYCOUNT (retrydevices st))))"
proof -
  from assms obtain result0 gwId where a: "announcement addr_ip decoded = Inr (result0, gwId)"
    by (auto simp: tuyalisten_def split: sum.splits)
  obtain dname dkey mac where l: "lookup_or_blank (tuyadevices st) gwId = (dname, dkey, mac)"
    by (cases "lookup_or_blank (tuyadevices st) gwId") auto
  show ?thesis
  proof (cases "gwId \<in> keys (deviceslist st)")
    case True
    with assms a l show ?thesis by (simp add: tuyalisten_def appenddevice_def)
  next
    case False
    show ?thesis
    proof (cases "dname = JStr '''' \<and> dkey = JStr '''' \<and> gwId \<notin> set (newdevices st)")
      case True
      with assms a l False have
        "st' = st\<lparr>deviceslist := AList.update gwId (set_values result0 dname mac dkey gwId) (deviceslist st),
                  retrydevices := AList.update gwId RETRYCOUNT (retrydevices st),
                  newdevices := newdevices st @ [gwId]\<rparr>"
        by (simp add: tuyalisten_def appenddevice_def)
      with True False blank_set_values [of result0 mac gwId] show ?thesis by auto
    next
      case n: False
      with assms a l False have
        "st' = st\<lparr>deviceslist := AList.update gwId (set_values result0 dname mac dkey gwId) (deviceslist st)\<rparr>"
        by (auto simp: tuyalisten_def appenddevice_def)
      with False show ?thesis by auto
    qed
  qed
qed

lemma blank_entry_update_other:
  "g \<noteq> d \<Longrightarrow> blank_entry (AList.update g e dl) d = blank_entry dl d"
  by (simp add: blank_entry_def update_conv')

lemma blank_entry_update_same: "blank_entry (AList.update g e dl) g = blank e"
  by (simp add: blank_entry_def update_conv')

lemma tuyalisten_consistent:
  assumes c: "consistent st" and t: "tuyalisten addr_ip decoded st = Inr st'"
  shows "consistent st'"
proof -
  from c have d: "distinct (map fst (retrydevices st))"
    and n: "set (newdevices st) \<subseteq> keys (deviceslist st)"
    and p: "\<And>d n. map_of (retrydevices st) d = Some n \<Longrightarrow>
           d = ''*'' \<or> (d \<in> set (newdevices st) \<and> blank_entry (deviceslist st) d)"
    unfolding consistent_iff by blast+
  from tuyalisten_cases [OF t] show ?thesis
  proof (elim disjE exE conjE)
    assume "st' = st" with c show ?thesis by simp
  next
    fix g e
    assume g: "g \<notin> keys (deviceslist st)"
      and dl: "deviceslist st' = AList.update g e (deviceslist st)"
      and s: "newdevices st' = newdevices st" "retrydevices st' = retrydevices st"
    have "d = ''*'' \<or> (d \<in> set (newdevices st') \<and> blank_entry (deviceslist st') d)"
      if "map_of (retrydevices st') d = Some m" for d m
    proof -
      from p [of d m] that s have "d = ''*'' \<or> (d \<in> set (newdevices st) \<and> blank_entry (deviceslist st) d)"
        by simp
      moreover have "g \<noteq> d" if "d \<in> set (newdevices st)" using that n g by auto
      ultimately show ?thesis using s dl by (auto simp: blank_entry_update_other)
    qed
    with d n s dl show ?thesis
      unfolding consistent_iff by (auto simp: keys_update)
  next
    fix g e
    assume g: "g \<notin> keys (deviceslist st)"
      and dl: "deviceslist st' = AList.update g e (deviceslist st)"
      and b: "blank e"
      and s: "newdevices st' = newdevices st @ [g]"
        "retrydevices st' = AList.update g RETRYCOUNT (retrydevices st)"
    have "d = ''*'' \<or> (d \<in> set (newdevices st') \<and> blank_entry (deviceslist st') d)"
      if "map_of (retrydevices st') d = Some m" for d m
    proof (cases "d = g")
      case True
      with s dl b show ?thesis by (simp add: blank_entry_update_same)
    next
      case False
      with that s have "map_of (retrydevices st) d = Some m" by (simp add: update_conv')
      from p [OF this] False s dl show ?thesis by (auto simp: blank_entry_update_other)
    qed
    moreover have "distinct (map fst (retrydevices st'))"
      using d s by (simp add: distinct_update)
    moreover have "set (newdevices st') \<subseteq> keys (deviceslist st')"
      using n s dl by (auto simp: keys_update)
    ultimately show ?thesis
      unfolding consistent_iff by blast
  qed
qed

lemma handle_sync_state:
  assumes "handle_sync ext now st = Inr (m, st')"
  shows "deviceslist st' = deviceslist st \<and> newdevices st' = newdevices st
         \<and> retrydevices st' = AList.update ''*'' 1 (retrydevices st)"
proof -
  from assms obtain r st1 where t: "tuyaCloudRefresh ext st = Inr (r, st1)"
    and s: "st' = arm_retry now st1"
    by (auto simp: handle_sync_def split: sum.splits)
  from tuyaCloudRefresh_shared [OF t] s show ?thesis by (simp add: arm_retry_def)
qed

lemma handle_cloudconfig_state:
  assumes "handle_cloudconfig ext now st path = Inr (m, st')"
  shows "deviceslist st' = deviceslist st \<and> newdevices st' = newdevices st
         \<and> (retrydevices st' = retrydevices st
            \<or> retrydevices st' = AList.update ''*'' 1 (retrydevices st))"
proof (cases "split_str ''/cloudconfig/'' path")
  case Nil
  with assms show ?thesis by (simp add: handle_cloudconfig_def)
next
  case (Cons x xs)
  show ?thesis
  proof (cases xs)
    case Nil
    with Cons assms show ?thesis by (simp add: handle_cloudconfig_def)
  next
    case c2: (Cons cfgstr ys)
    show ?thesis
    proof (cases "\<exists>c0 c1 c2 c3. split_str ''/'' cfgstr = [c0, c1, c2, c3]")
      case True
      then obtain c0 c1 c2 c3 where sp: "split_str ''/'' cfgstr = [c0, c1, c2, c3]" by blast
      let ?st = "st\<lparr>cloudconfig :=
                       AList.update ''apiDeviceID'' (JStr c3)
                         (AList.update ''apiRegion'' (JStr c2)
                           (AList.update ''apiSecret'' (JStr c1)
                             (AList.update ''apiKey'' (JStr c0) (cloudconfig st))))\<rparr>"
      from assms Cons c2 sp have "handle_sync ext now ?st = Inr (m, st')"
        by (simp add: handle_cloudconfig_def)
      from handle_sync_state [OF this] show ?thesis by simp
    next
      case False
      with assms Cons c2 have "st' = st"
        by (auto simp: handle_cloudconfig_def split: list.splits)
      then show ?thesis by simp
    qed
  qed
qed

lemma do_GET_state:
  assumes "do_GET ext now st path = Inr (m, st', tr)"
  shows "deviceslist st' = deviceslist st \<and> newdevices st' = newdevices st
         \<and> (retrydevices st' = retrydevices st
            \<or> retrydevices st' = AList.update ''*'' 1 (retrydevices st))"
proof -
  consider (sync) "\<exists>m. handle_sync ext now st = Inr (m, st')"
    | (cfg) "\<exists>m. handle_cloudconfig ext now st path = Inr (m, st')"
    | (same) "st' = st"
    using assms
    by (auto simp: do_GET_def split: if_splits sum.splits prod.splits)
  then show ?thesis
  proof cases
    case sync
    then show ?thesis using handle_sync_state by blast
  next
    case cfg
    then show ?thesis using handle_cloudconfig_state by blast
  next
    case same
    then show ?thesis by simp
  qed
qed

section \<open>Pending devices over sequences of actions\<close>

lemma do_GET_consistent:
  assumes c: "consistent st" and g: "do_GET ext now st path = Inr (m, st', tr)"
  shows "consistent st'"
proof -
  from do_GET_state [OF g] have dl: "deviceslist st' = deviceslist st"
    and nd: "newdevices st' = newdevices st"
    and rd: "retrydevices st' = retrydevices st
            \<or> retrydevices st' = AList.update ''*'' 1 (retrydevices st)"
    by simp_all
  from rd show ?thesis
  proof
    assume "retrydevices st' = retrydevices st"
    with dl nd c consistent_shared [of st' st] show ?thesis by simp
  next
    assume r: "retrydevices st' = AList.update ''*'' 1 (retrydevices st)"
    from c have d: "distinct (map fst (retrydevices st))"
      and n: "set (newdevices st) \<subseteq> keys (deviceslist st)"
      and p: "\<And>d n. map_of (retrydevices st) d = Some n \<Longrightarrow>
           d = ''*'' \<or> (d \<in> set (newdevices st) \<and> blank_entry (deviceslist st) d)"
      unfolding consistent_iff by blast+
    have "d = ''*'' \<or> (d \<in> set (newdevices st') \<and> blank_entry (deviceslist st') d)"
      if "map_of (retrydevices st') d = Some k" for d k
    proof (cases "d = ''*''")
      case True then show ?thesis by simp
    next
      case False
      with that r have "map_of (retrydevices st) d = Some k" by (simp add: update_conv')
      from p [OF this] dl nd show ?thesis by simp
    qed
    moreover have "distinct (map fst (retrydevices st'))"
      using d r by (simp add: distinct_update)
    moreover have "set (newdevices st') \<subseteq> keys (deviceslist st')"
      using n dl nd by simp
    ultimately show ?thesis
      unfolding consistent_iff by blast
  qed
qed

lemma step_consistent:
  assumes "consistent st" and "step ext a st = Inr st'"
  shows "consistent st'"
proof (cases a)
  case (Datagram addr_ip decoded)
  with assms have "tuyalisten addr_ip decoded st = Inr st'" by simp
  from tuyalisten_consistent [OF assms(1) this] show ?thesis .
next
  case (Request now path)
  with assms obtain m tr where "do_GET ext now st path = Inr (m, st', tr)"
    by (auto split: sum.splits)
  from do_GET_consistent [OF assms(1) this] show ?thesis .
next
  case (Tick now now2)
  show ?thesis
  proof (cases "pass_due now st")
    case True
    with assms Tick have "resolution_pass ext now2 st = Inr st'"
      by (simp add: main_iteration_pass)
    from pass_consistent [OF assms(1) this] show ?thesis .
  next
    case False
    with assms Tick show ?thesis by (simp add: main_iteration_pass)
  qed
qed

lemma attached_not_blank: "attached tds d e \<Longrightarrow> hit tds d \<Longrightarrow> \<not> blank e"
  by (auto simp: attached_def hit_def blank_def split: prod.splits)

lemma tracked_same:
  assumes "tracked d st b"
    and "map_of (deviceslist st') d = map_of (deviceslist st) d"
    and "map_of (retrydevices st') d = map_of (retrydevices st) d"
    and "d \<in> set (newdevices st') \<longleftrightarrow> d \<in> set (newdevices st)"
  shows "tracked d st' b"
  using assms by (auto simp: tracked_def budget_in_def blank_entry_def keys_map_of)

lemma tuyalisten_tracked:
  assumes t: "tracked d st b" and l: "tuyalisten addr_ip decoded st = Inr st'"
  shows "tracked d st' b"
proof -
  from t have k: "d \<in> keys (deviceslist st)" by (simp add: tracked_def)
  from tuyalisten_cases [OF l] show ?thesis
  proof (elim disjE exE conjE)
    assume "st' = st" with t show ?thesis by simp
  next
    fix g e
    assume g: "g \<notin> keys (deviceslist st)"
      and dl: "deviceslist st' = AList.update g e (deviceslist st)"
      and s: "newdevices st' = newdevices st" "retrydevices st' = retrydevices st"
    from g k have "g \<noteq> d" by auto
    with dl s show ?thesis
      by (intro tracked_same [OF t]) (simp_all add: update_conv')
  next
    fix g e
    assume g: "g \<notin> keys (deviceslist st)"
      and dl: "deviceslist st' = AList.update g e (deviceslist st)"
      and s: "newdevices st' = newdevices st @ [g]"
        "retrydevices st' = AList.update g RETRYCOUNT (retrydevices st)"
    from g k have "g \<noteq> d" by auto
    with dl s show ?thesis
      by (intro tracked_same [OF t]) (simp_all add: update_conv')
  qed
qed

lemma do_GET_tracked:
  assumes t: "tracked d st b" and ne: "d \<noteq> ''*''"
    and g: "do_GET ext now st path = Inr (m, st', tr)"
  shows "tracked d st' b"
proof -
  from do_GET_state [OF g] ne have "map_of (retrydevices st') d = map_of (retrydevices st) d"
    and "deviceslist st' = deviceslist st" and "newdevices st' = newdevices st"
    by (auto simp: update_conv')
  then show ?thesis by (intro tracked_same [OF t]) simp_all
qed

lemma pass_tracked:
  assumes c: "consistent st" and t: "tracked d st b"
    and p: "resolution_pass ext now2 st = Inr st'"
  shows "tracked d st' (b - 1)"
proof -
  note r = pass_retry [OF p consistent_distinct [OF c], of d]
  from t have k: "d \<in> keys (deviceslist st')" by (simp add: tracked_def pass_keys [OF p])
  from t r have bu: "budget_in st' d (b - 1)"
    by (auto simp: tracked_def budget_in_def split: option.splits if_splits)
  show ?thesis
  proof (cases "d \<in> set (newdevices st)")
    case False
    with t have a: "d \<notin> keys (retrydevices st)" "\<not> blank_entry (deviceslist st) d"
      by (simp_all add: tracked_def)
    from False have 1: "d \<notin> set (newdevices st')" by (simp add: pass_newdevices [OF p])
    from pass_other [OF p, of d] False a have 2: "\<not> blank_entry (deviceslist st') d"
      by (simp add: blank_entry_def)
    from r False a have 3: "d \<notin> keys (retrydevices st')" by (simp add: keys_map_of)
    from k bu 1 2 3 show ?thesis by (simp add: tracked_def)
  next
    case True
    with t have bl: "blank_entry (deviceslist st) d" by (simp add: tracked_def)
    show ?thesis
    proof (cases "hit (tuyadevices st') d")
      case h: True
      from h have 1: "d \<notin> set (newdevices st')" by (simp add: pass_newdevices [OF p])
      from pass_attached [OF p True h] attached_not_blank h
      have 2: "\<not> blank_entry (deviceslist st') d"
        by (auto simp: blank_entry_def)
      from r True h have 3: "d \<notin> keys (retrydevices st')" by (simp add: keys_map_of)
      from k bu 1 2 3 show ?thesis by (simp add: tracked_def)
    next
      case False
      with True have 1: "d \<in> set (newdevices st')" by (simp add: pass_newdevices [OF p])
      from pass_other [OF p, of d] False bl have 2: "blank_entry (deviceslist st') d"
        by (simp add: blank_entry_def)
      from k bu 1 2 show ?thesis by (simp add: tracked_def)
    qed
  qed
qed

lemma step_tracked:
  assumes c: "consistent st" and t: "tracked d st b" and ne: "d \<noteq> ''*''"
    and s: "step ext a st = Inr st'"
  shows "tracked d st' (if is_pass a st then b - 1 else b)"
proof (cases a)
  case (Datagram addr_ip decoded)
  with s tuyalisten_tracked [OF t] show ?thesis by simp
next
  case (Request now path)
  with s obtain m tr where "do_GET ext now st path = Inr (m, st', tr)"
    by (auto split: sum.splits)
  from do_GET_tracked [OF t ne this] Request show ?thesis by simp
next
  case (Tick now now2)
  show ?thesis
  proof (cases "pass_due now st")
    case True
    with s Tick have "resolution_pass ext now2 st = Inr st'"
      by (simp add: main_iteration_pass)
    from pass_tracked [OF c t this] True Tick show ?thesis by simp
  next
    case False
    with s Tick t show ?thesis by (simp add: main_iteration_pass)
  qed
qed

lemma run_tracked:
  "run ext acts st = Inr (st', k) \<Longrightarrow> consistent st \<Longrightarrow> tracked d st b \<Longrightarrow> d \<noteq> ''*'' \<Longrightarrow>
   consistent st' \<and> tracked d st' (b - int k)"
proof (induction acts arbitrary: st k b)
  case Nil
  then show ?case by simp
next
  case (Cons a acts)
  from Cons.prems(1) obtain st1 k1 where s: "step ext a st = Inr st1"
    and r: "run ext acts st1 = Inr (st', k1)"
    and k: "k = (if is_pass a st then Suc k1 else k1)"
    by (auto split: sum.splits)
  from step_consistent [OF Cons.prems(2) s] have c1: "consistent st1" .
  from step_tracked [OF Cons.prems(2,3,4) s]
  have t1: "tracked d st1 (if is_pass a st then b - 1 else b)" .
  show ?case
  proof (cases "is_pass a st")
    case True
    with t1 have "tracked d st1 (b - 1)" by simp
    from Cons.IH [OF r c1 this Cons.prems(4)] True k show ?thesis
      by (simp add: algebra_simps)
  next
    case False
    with t1 have "tracked d st1 b" by simp
    from Cons.IH [OF r c1 this Cons.prems(4)] False k show ?thesis
      by simp
  qed
qed

lemma registered_tracked:
  assumes c: "consistent st0" and l: "tuyalisten addr_ip decoded st0 = Inr st"
    and a: "d \<notin> keys (retrydevices st0)" and b: "d \<in> keys (retrydevices st)"
  shows "map_of (retrydevices st) d = Some RETRYCOUNT \<and> tracked d st RETRYCOUNT"
proof -
  from tuyalisten_cases [OF l] show ?thesis
  proof (elim disjE exE conjE)
    assume "st = st0" with a b show ?thesis by simp
  next
    fix g e
    assume "retrydevices st = retrydevices st0"
    with a b show ?thesis by simp
  next
    fix g e
    assume dl: "deviceslist st = AList.update g e (deviceslist st0)" and bl: "blank e"
      and s: "newdevices st = newdevices st0 @ [g]"
        "retrydevices st = AList.update g RETRYCOUNT (retrydevices st0)"
    from a b s have "g = d" by (simp add: keys_update)
    with dl bl s show ?thesis
      by (simp add: tracked_def budget_in_def update_conv' keys_update blank_entry_update_same
          RETRYCOUNT_def)
  qed
qed

text \<open>
  Claim C5.  A datagram registers \<open>d\<close> as pending, which gives it the count
  \<^verbatim>\<open>RETRYCOUNT\<close>.  After any sequence of datagrams, requests and rounds of the main
  loop that ran without an exception and contained at least \<^verbatim>\<open>RETRYCOUNT\<close>
  resolution passes, \<open>d\<close> is no longer pending.  Its registry entry is still
  there.  If \<open>d\<close> is still in \<^verbatim>\<open>newdevices\<close> no pass found credentials for it (it
  expired), and the entry has the empty name and key; otherwise a pass found them (it was
  resolved) and the entry has a name or a key.
\<close>

theorem C5_pending_bounded:
  assumes "consistent st0" and "tuyalisten addr_ip decoded st0 = Inr st"
    and "d \<notin> keys (retrydevices st0)" and "d \<in> keys (retrydevices st)" and "d \<noteq> ''*''"
    and "run ext acts st = Inr (st', k)" and "RETRYCOUNT \<le> int k"
  shows "map_of (retrydevices st) d = Some RETRYCOUNT
         \<and> d \<notin> keys (retrydevices st')
         \<and> d \<in> keys (deviceslist st')
         \<and> (if d \<in> set (newdevices st') then blank_entry (deviceslist st') d
            else \<not> blank_entry (deviceslist st') d)"
proof -
  from registered_tracked [OF assms(1-4)]
  have r: "map_of (retrydevices st) d = Some RETRYCOUNT" and t: "tracked d st RETRYCOUNT"
    by simp_all
  from tuyalisten_consistent [OF assms(1,2)] have c: "consistent st" .
  from run_tracked [OF assms(6) c t assms(5)]
  have t': "tracked d st' (RETRYCOUNT - int k)" by simp
  from t' assms(7) have "d \<notin> keys (retrydevices st')"
    by (auto simp: tracked_def budget_in_def keys_map_of split: option.splits)
  with r t' show ?thesis by (simp add: tracked_def)
qed


text \<open>
  Claim C10.  First pass: \<open>d\<close> is a new device whose count is at most 1 and for
  which the lookup finds nothing; afterwards it is not pending but still in
  \<^verbatim>\<open>newdevices\<close>.  Any later round of the main loop that runs a pass (\<open>pass_due\<close>:
  the gate is open and some entry is pending) on a state where \<open>d\<close> is still in
  \<^verbatim>\<open>newdevices\<close> and not pending looks \<open>d\<close> up again: when the records now have
  a name or a key for it, the registry entry receives name, key and mac and \<open>d\<close>
  leaves \<^verbatim>\<open>newdevices\<close>.
\<close>

theorem C10_expired_stays_resolvable:
  assumes c: "consistent st" and p: "resolution_pass ext t st = Inr st1"
    and n: "d \<in> set (newdevices st)" and b: "map_of (retrydevices st) d = Some n" "n \<le> 1"
    and nh: "\<not> hit (tuyadevices st1) d"
    and n2: "d \<in> set (newdevices st2)"
    and e2: "d \<notin> keys (retrydevices st2)" and due: "pass_due now st2"
    and p2: "main_iteration ext' now t' st2 = Inr st3" and h: "hit (tuyadevices st3) d"
  shows "d \<notin> keys (retrydevices st1) \<and> d \<in> set (newdevices st1) \<and> consistent st1
         \<and> (\<exists>e. map_of (deviceslist st3) d = Some e \<and> attached (tuyadevices st3) d e)
         \<and> d \<notin> set (newdevices st3)"
proof -
  from pass_retry [OF p consistent_distinct [OF c], of d] b
  have 1: "d \<notin> keys (retrydevices st1)" by (simp add: keys_map_of)
  from n nh have 2: "d \<in> set (newdevices st1)" by (simp add: pass_newdevices [OF p])
  from pass_consistent [OF c p] have 3: "consistent st1" .
  from due p2 have q: "resolution_pass ext' t' st2 = Inr st3"
    by (simp add: main_iteration_pass)
  from pass_attached [OF q n2 h]
  have 4: "\<exists>e. map_of (deviceslist st3) d = Some e \<and> attached (tuyadevices st3) d e" .
  from h have 5: "d \<notin> set (newdevices st3)" by (simp add: pass_newdevices [OF q])
  from 1 2 3 4 5 show ?thesis by simp
qed

section \<open>The countdown and a late resolution on concrete states\<close>

lemmas pass_eval = main_iteration_def resolution_pass_def refresh_unless_forced_def
  resolve_and_expire_def tuyaCloudRefresh_def config_fields_def called_def contacted_def
  lookup_or_blank_def resolved_entry_def countdown_def decrement_def expired_def keys_def
  RETRYTIME_def pass_due_def

lemma first_sighting:
  "tuyalisten ''10.0.0.5'' (Some (JObj pkt_first)) st_init = Inr st_first"
  by (simp add: tuyalisten_def announcement_def lookup_or_blank_def set_values_def
      appenddevice_def keys_def RETRYCOUNT_def st_init_def st_first_def pkt_first_def
      entry_first_def)

lemma tick_countdown:
  "n > 1 \<Longrightarrow> t \<le> now \<Longrightarrow>
   main_iteration ext_ok now now
     (st_first\<lparr>retrydevices := [(''abc123'', n)], retrytimer := t, bridge_calls := b\<rparr>)
   = Inr (st_first\<lparr>retrydevices := [(''abc123'', n - 1)], retrytimer := now + 30,
            bridge_calls := Suc b\<rparr>)"
  by (simp add: pass_eval st_first_def st_init_def cfg_default_def ext_ok_def)

lemma tick_expire:
  "t \<le> now \<Longrightarrow>
   main_iteration ext_ok now now
     (st_first\<lparr>retrydevices := [(''abc123'', 1)], retrytimer := t, bridge_calls := b\<rparr>)
   = Inr (st_first\<lparr>retrydevices := [], retrytimer := now + 30, bridge_calls := Suc b\<rparr>)"
  by (simp add: pass_eval st_first_def st_init_def cfg_default_def ext_ok_def)

lemma st_first_alt:
  "st_first = st_first\<lparr>retrydevices := [(''abc123'', 5)], retrytimer := 0, bridge_calls := 0\<rparr>"
  by (simp add: st_first_def st_init_def)

lemma due_pending:
  "t \<le> now \<Longrightarrow>
   pass_due now (st_first\<lparr>retrydevices := [(''abc123'', n)], retrytimer := t, bridge_calls := b\<rparr>)"
  by (simp add: pass_due_def)

lemma five_passes: "run ext_ok five_ticks st_first = Inr (st_expired, 5)"
  apply (subst st_first_alt)
  apply (simp add: five_ticks_def tick_countdown tick_expire due_pending st_expired_def)
  done


theorem C5_pending_bounded_witness:
  "consistent st_init
   \<and> tuyalisten ''10.0.0.5'' (Some (JObj pkt_first)) st_init = Inr st_first
   \<and> ''abc123'' \<notin> keys (retrydevices st_init)
   \<and> ''abc123'' \<in> keys (retrydevices st_first)
   \<and> run ext_ok five_ticks st_first = Inr (st_expired, 5)
   \<and> RETRYCOUNT \<le> 5
   \<and> map_of (retrydevices st_first) ''abc123'' = Some RETRYCOUNT
   \<and> ''abc123'' \<notin> keys (retrydevices st_expired)
   \<and> ''abc123'' \<in> keys (deviceslist st_expired)
   \<and> ''abc123'' \<in> set (newdevices st_expired)
   \<and> blank_entry (deviceslist st_expired) ''abc123''"
proof -
  have a: "consistent st_init" by (simp add: consistent_def st_init_def)
  have b: "''abc123'' \<notin> keys (retrydevices st_init)" by (simp add: st_init_def keys_def)
  have c: "''abc123'' \<in> keys (retrydevices st_first)" by (simp add: st_first_def keys_def)
  have d: "''abc123'' \<noteq> ''*''" by simp
  have e: "RETRYCOUNT \<le> int 5" by (simp add: RETRYCOUNT_def)
  have f: "''abc123'' \<in> set (newdevices st_expired)"
    by (simp add: st_expired_def st_first_def)
  from C5_pending_bounded [OF a first_sighting b c d five_passes e] a b c e f first_sighting
    five_passes
  show ?thesis by simp
qed

lemma last_pass: "resolution_pass ext_ok 0 st_last = Inr st_gone"
  by (simp add: pass_eval st_last_def st_gone_def st_first_def st_init_def cfg_default_def
      ext_ok_def)

lemma cloudconfig_request:
  "do_GET ext_cloud 40 st_gone ''/cloudconfig/k/s/eu/d''
     = Inr (Json (JObj [(''devices'', JList [rec_plug, rec_lamp])]), st_synced, [])"
  by (simp add: do_GET_def startswith_def handle_cloudconfig_def handle_sync_def
      tuyaCloudRefresh_def config_fields_def arm_retry_def called_def contacted_def RETRYTIME_def
      st_synced_def st_gone_def st_first_def st_init_def cfg_default_def cfg_full_def
      ext_cloud_def)

lemma late_pass: "main_iteration ext_cloud 41 41 st_synced = Inr st_late"
  by (simp add: pass_eval st_late_def st_synced_def st_gone_def st_first_def st_init_def
      entry_first_def entry_plug_def rec_plug_def rec_lamp_def)

theorem C10_expired_stays_resolvable_witness:
  "consistent st_last
   \<and> resolution_pass ext_ok 0 st_last = Inr st_gone
   \<and> map_of (retrydevices st_last) ''abc123'' = Some 1
   \<and> \<not> hit (tuyadevices st_gone) ''abc123''
   \<and> ''abc123'' \<notin> keys (retrydevices st_gone)
   \<and> ''abc123'' \<in> set (newdevices st_gone)
   \<and> do_GET ext_cloud 40 st_gone ''/cloudconfig/k/s/eu/d''
        = Inr (Json (JObj [(''devices'', JList [rec_plug, rec_lamp])]), st_synced, [])
   \<and> ''abc123'' \<in> set (newdevices st_synced)
   \<and> ''abc123'' \<notin> keys (retrydevices st_synced)
   \<and> pass_due 41 st_synced
   \<and> main_iteration ext_cloud 41 41 st_synced = Inr st_late
   \<and> hit (tuyadevices st_late) ''abc123''
   \<and> (\<exists>e. map_of (deviceslist st_late) ''abc123'' = Some e
          \<and> attached (tuyadevices st_late) ''abc123'' e)
   \<and> ''abc123'' \<notin> set (newdevices st_late)"
proof -
  have c: "consistent st_last"
    by (simp add: consistent_def st_last_def st_first_def st_init_def keys_def blank_entry_def
        blank_def entry_first_def)
  have n: "''abc123'' \<in> set (newdevices st_last)"
    by (simp add: st_last_def st_first_def)
  have b: "map_of (retrydevices st_last) ''abc123'' = Some 1" "(1::int) \<le> 1"
    by (simp_all add: st_last_def)
  have nh: "\<not> hit (tuyadevices st_gone) ''abc123''"
    by (simp add: hit_def lookup_or_blank_def st_gone_def st_first_def st_init_def)
  have n2: "''abc123'' \<in> set (newdevices st_synced)"
    by (simp add: st_synced_def st_gone_def st_first_def)
  have e2: "''abc123'' \<notin> keys (retrydevices st_synced)"
    by (simp add: st_synced_def keys_def)
  have due: "pass_due 41 st_synced"
    by (simp add: pass_due_def st_synced_def keys_def)
  have h: "hit (tuyadevices st_late) ''abc123''"
    by (simp add: hit_def lookup_or_blank_def st_late_def st_synced_def rec_plug_def)
  from C10_expired_stays_resolvable [OF c last_pass n b nh n2 e2 due late_pass h]
    c last_pass b nh cloudconfig_request n2 e2 due late_pass h
  show ?thesis by simp
qed

section \<open>The value and the key of a set request\<close>

lemma split_str_none: "c \<notin> set xs \<Longrightarrow> split_str [c] xs = [xs]"
  by (induction xs) auto

lemma split_str_first: "c \<notin> set xs \<Longrightarrow> split_str [c] (xs @ c # ys) = xs # split_str [c] ys"
  by (induction xs) auto


lemma set_path_split:
  assumes "CHR ''/'' \<notin> set did0" and "CHR ''/'' \<notin> set dpsKey" and "CHR ''/'' \<notin> set tok"
  shows "split_str ''/'' (''/set/'' @ did0 @ ''/'' @ dpsKey @ ''/'' @ tok)
           = ['''', ''set'', did0, dpsKey, tok]"
proof -
  have "split_str ''/'' (''/set/'' @ did0 @ ''/'' @ dpsKey @ ''/'' @ tok)
      = [] # ''set'' # split_str ''/'' (did0 @ CHR ''/'' # dpsKey @ CHR ''/'' # tok)"
    by simp
  also have "split_str ''/'' (did0 @ CHR ''/'' # dpsKey @ CHR ''/'' # tok)
      = did0 # split_str ''/'' (dpsKey @ CHR ''/'' # tok)"
    using assms(1) by (rule split_str_first)
  also have "split_str ''/'' (dpsKey @ CHR ''/'' # tok) = dpsKey # split_str ''/'' tok"
    using assms(2) by (rule split_str_first)
  also have "split_str ''/'' tok = [tok]"
    using assms(3) by (rule split_str_none)
  finally show ?thesis .
qed











lemma open_device_trace: "Call c \<notin> set (snd (open_device ext dl d))"
  by (auto simp: open_device_def split: json.splits option.splits)

lemma device_command_trace:
  "Call c \<in> set (snd (device_command ext dl d call)) \<Longrightarrow> c = call"
  using open_device_trace [of c ext dl d]
  by (auto simp: device_command_def split: prod.splits sum.splits)

lemma set_target_path:
  assumes "CHR ''/'' \<notin> set did0" and "CHR ''/'' \<notin> set dpsKey0" and "CHR ''/'' \<notin> set tok"
  shows "set_target ext st (''/set/'' @ did0 @ ''/'' @ dpsKey0 @ ''/'' @ tok) =
     (case coerce_value (unquote ext tok) of
        Inl e \<Rightarrow> Inl e
      | Inr dpsValue \<Rightarrow>
          (case resolve_id ext (deviceslist st) did0 of
             Inl e \<Rightarrow> Inl e
           | Inr did \<Rightarrow>
               if is_container did then Inl Unmodelled
               else
                 (case (if \<not> isnumeric dpsKey0
                        then map_dps_key (tuyadevices st) did dpsKey0
                        else Inr dpsKey0) of
                    Inl e \<Rightarrow> Inl e
                  | Inr dpsKey \<Rightarrow> Inr (did, dpsKey, dpsValue))))"
  unfolding set_target_def set_path_split [OF assms] by simp

lemma set_target_value:
  assumes "CHR ''/'' \<notin> set did0" and "CHR ''/'' \<notin> set dpsKey0" and "CHR ''/'' \<notin> set tok"
    and "set_target ext st (''/set/'' @ did0 @ ''/'' @ dpsKey0 @ ''/'' @ tok) = Inr (d, k, v)"
  shows "coerce_value (unquote ext tok) = Inr v"
  using assms(4) unfolding set_target_path [OF assms(1-3)]
  by (auto split: sum.splits if_splits)

lemma set_try_call:
  assumes "Call (Set_value k v) \<in> set (snd (set_try ext st path))"
  shows "\<exists>d. set_target ext st path = Inr (d, k, v)"
proof (cases "set_target ext st path")
  case (Inl e)
  with assms show ?thesis by (simp add: set_try_def)
next
  case (Inr t)
  obtain d k' v' where t: "t = (d, k', v')" by (cases t)
  show ?thesis
  proof (cases "in_registry d (deviceslist st)")
    case False
    with assms Inr t show ?thesis by (simp add: set_try_def not_found_def)
  next
    case True
    with assms Inr t have
      "Call (Set_value k v) \<in> set (snd (device_command ext (deviceslist st) d (Set_value k' v')))"
      by (auto simp: set_try_def split: prod.splits sum.splits)
    from device_command_trace [OF this] Inr t show ?thesis by simp
  qed
qed

lemma handle_set_trace:
  "handle_set ext st path = Inr (message, tr) \<Longrightarrow> tr = snd (set_try ext st path)"
  by (auto simp: handle_set_def split: sum.splits pyerr.splits prod.splits)

lemma do_GET_set:
  "do_GET ext now st (''/set/'' @ rest) =
     (case handle_set ext st (''/set/'' @ rest) of
        Inl e \<Rightarrow> Inl e
      | Inr (message, tr) \<Rightarrow> Inr (message, st, tr))"
  by (simp add: do_GET_def startswith_def)

text \<open>
  Whatever the request, a \<^verbatim>\<open>set_value\<close> that the handler performs carries the value
  that the chain of tests made of the value token.
\<close>

lemma set_value_only_coerced:
  assumes s: "CHR ''/'' \<notin> set did0" "CHR ''/'' \<notin> set dpsKey0" "CHR ''/'' \<notin> set tok"
    and g: "do_GET ext now st (''/set/'' @ did0 @ ''/'' @ dpsKey0 @ ''/'' @ tok)
         = Inr (message, st', tr)"
    and c: "Call (Set_value k v) \<in> set tr"
  shows "coerce_value (unquote ext tok) = Inr v"
proof -
  let ?path = "''/set/'' @ did0 @ ''/'' @ dpsKey0 @ ''/'' @ tok"
  from g obtain m where "handle_set ext st ?path = Inr (m, tr)"
    unfolding do_GET_set by (auto split: sum.splits)
  from handle_set_trace [OF this] c
  have "Call (Set_value k v) \<in> set (snd (set_try ext st ?path))" by simp
  from set_try_call [OF this] obtain d where "set_target ext st ?path = Inr (d, k, v)" by blast
  from set_target_value [OF s this] show ?thesis .
qed

lemma calls_command:
  assumes "open_device ext dl d = (Inr s, [Open s ip ky, Set_version ver])"
  shows "calls (snd (device_command ext dl d call)) = [call]"
  using assms by (cases "device ext s call") (simp_all add: device_command_def calls_def)

text \<open>
  The other direction: when the value token converts to \<open>v\<close>, the id token resolves
  to a device of the registry whose entry has ip, key and a usable version, and the key
  token resolves to \<open>k\<close>, the request is answered with the events of one session in
  which \<^verbatim>\<open>set_value(k, v)\<close> is the operation.
\<close>

lemma set_sent:
  assumes s: "CHR ''/'' \<notin> set did0" "CHR ''/'' \<notin> set dpsKey0" "CHR ''/'' \<notin> set tok"
    and r: "resolve_id ext (deviceslist st) did0 = Inr (JStr d)"
    and e: "map_of (deviceslist st) d = Some e" "map_of e ''ip'' = Some ip"
      "map_of e ''key'' = Some ky" "map_of e ''version'' = Some ver" "\<not> float_raises ext ver"
    and k: "(if \<not> isnumeric dpsKey0 then map_dps_key (tuyadevices st) (JStr d) dpsKey0
             else Inr dpsKey0) = Inr k"
    and v: "coerce_value (unquote ext tok) = Inr v"
  shows "\<exists>message rest. do_GET ext now st (''/set/'' @ did0 @ ''/'' @ dpsKey0 @ ''/'' @ tok)
           = Inr (message, st, [Open d ip ky, Set_version ver, Call (Set_value k v)] @ rest)
           \<and> (rest = [] \<or> rest = [Close])"
proof -
  let ?path = "''/set/'' @ did0 @ ''/'' @ dpsKey0 @ ''/'' @ tok"
  have t: "set_target ext st ?path = Inr (JStr d, k, v)"
    unfolding set_target_path [OF s] using v r k by simp
  have reg: "in_registry (JStr d) (deviceslist st)"
    using e(1) by (simp add: in_registry_def keys_map_of)
  have o: "open_device ext (deviceslist st) (JStr d) = (Inr d, [Open d ip ky, Set_version ver])"
    using e by (simp add: open_device_def)
  have "\<exists>m rest. set_try ext st ?path
      = (m, [Open d ip ky, Set_version ver, Call (Set_value k v)] @ rest)
      \<and> (rest = [] \<or> rest = [Close])"
    using t reg o
    by (cases "device ext d (Set_value k v)") (simp_all add: set_try_def device_command_def)
  then obtain m rest where
    m: "set_try ext st ?path = (m, [Open d ip ky, Set_version ver, Call (Set_value k v)] @ rest)"
    and c: "rest = [] \<or> rest = [Close]"
    by blast
  from t m have "\<exists>message. handle_set ext st ?path
      = Inr (message, [Open d ip ky, Set_version ver, Call (Set_value k v)] @ rest)"
    by (cases m) (simp_all add: handle_set_def)
  with c show ?thesis
    unfolding do_GET_set by auto
qed





lemma py_eq_str: "py_eq v (JStr d) = (v = JStr d)"
  by (cases v) simp_all

lemma find_code_first:
  "no_code k m1 \<Longrightarrow> map_of en ''code'' = Some (JStr k) \<Longrightarrow>
   find_code (m1 @ (i, JObj en) # m2) k = Inr (Some i)"
proof (induction m1)
  case Nil
  then show ?case by simp
next
  case (Cons p m1)
  obtain j e where p: "p = (j, e)" by (cases p)
  from Cons.prems(1) p obtain x where e: "e = JObj x"
    by (cases e) (auto simp: no_code_def)
  from Cons p e show ?case
    by (auto simp: no_code_def split: option.splits)
qed

lemma map_dps_other:
  "other_records d xs \<Longrightarrow> map_dps_key xs (JStr d) k = Inr k"
proof (induction xs)
  case Nil
  then show ?case by simp
next
  case (Cons x xs)
  from Cons.prems obtain r where "x = JObj r" 
    by (cases x) (auto simp: other_records_def)
  with Cons show ?case
    by (auto simp: other_records_def py_eq_str split: option.splits)
qed

lemma map_dps_found:
  assumes "other_records d pre" and "other_records d post"
    and "map_of x ''id'' = Some (JStr d)"
    and "map_of x ''mapping'' = Some (JObj (m1 @ (i, JObj en) # m2))"
    and "no_code k m1" and "map_of en ''code'' = Some (JStr k)"
  shows "map_dps_key (pre @ JObj x # post) (JStr d) k = Inr i"
  using assms(1)
proof (induction pre)
  case Nil
  from find_code_first [OF assms(5,6), of i m2] assms(3,4) map_dps_other [OF assms(2), of i]
  show ?case by (simp add: py_eq_str)
next
  case (Cons y pre)
  from Cons.prems obtain r where "y = JObj r" 
    by (cases y) (auto simp: other_records_def)
  with Cons show ?case
    by (auto simp: other_records_def py_eq_str split: option.splits)
qed

text \<open>
  A mapping that is an empty list or an empty string: the loop over it runs no time, and
  the key token stays as it is.
\<close>

lemma map_dps_empty_mapping:
  assumes "map_of x ''id'' = Some (JStr d)"
    and "map_of x ''mapping'' = Some (JList []) \<or> map_of x ''mapping'' = Some (JStr [])"
  shows "map_dps_key (JObj x # rest) (JStr d) k = map_dps_key rest (JStr d) k"
  using assms by (auto simp: py_eq_str)

text \<open>
  Claim C9.  The key token is not numeric; the id token resolves to the device \<open>d\<close>
  of the registry; among the credential records, all dicts with an id, exactly the
  record \<open>x\<close> has the id \<open>d\<close>; its mapping has the entry \<open>i\<close> with the code
  of the key token, and no entry before it has that code.  Then the handler opens the
  Device Client of \<open>d\<close> and calls \<^verbatim>\<open>set_value\<close> with the key \<open>i\<close> and the
  coerced value.
\<close>

theorem C9_code_to_data_point:
  assumes s: "CHR ''/'' \<notin> set did0" "CHR ''/'' \<notin> set dpsKey0" "CHR ''/'' \<notin> set tok"
    and nn: "\<not> isnumeric dpsKey0"
    and r: "resolve_id ext (deviceslist st) did0 = Inr (JStr d)"
    and e: "map_of (deviceslist st) d = Some e" "map_of e ''ip'' = Some ip"
      "map_of e ''key'' = Some ky" "map_of e ''version'' = Some ver" "\<not> float_raises ext ver"
    and t: "tuyadevices st = pre @ JObj x # post" "other_records d pre" "other_records d post"
      "map_of x ''id'' = Some (JStr d)"
      "map_of x ''mapping'' = Some (JObj (m1 @ (i, JObj en) # m2))"
      "no_code dpsKey0 m1" "map_of en ''code'' = Some (JStr dpsKey0)"
    and v: "coerce_value (unquote ext tok) = Inr v"
  shows "\<exists>message rest. do_GET ext now st (''/set/'' @ did0 @ ''/'' @ dpsKey0 @ ''/'' @ tok)
           = Inr (message, st, [Open d ip ky, Set_version ver, Call (Set_value i v)] @ rest)"
proof -
  have "map_dps_key (tuyadevices st) (JStr d) dpsKey0 = Inr i"
    using map_dps_found [OF t(2-7)] t(1) by simp
  with nn have k: "(if \<not> isnumeric dpsKey0 then map_dps_key (tuyadevices st) (JStr d) dpsKey0
             else Inr dpsKey0) = Inr i"
    by simp
  from set_sent [OF s r e k v, of now] show ?thesis by blast
qed

theorem C9_code_to_data_point_witness:
  "\<not> isnumeric ''switch_1''
   \<and> resolve_id ext_ok (deviceslist st_plug) ''Plug1'' = Inr (JStr ''abc123'')
   \<and> map_of (deviceslist st_plug) ''abc123'' = Some entry_plug
   \<and> other_records ''abc123'' [rec_lamp]
   \<and> no_code ''switch_1'' []
   \<and> coerce_value (unquote ext_ok ''true'') = Inr (JBool True)
   \<and> (\<exists>message rest. do_GET ext_ok 0 st_plug ''/set/Plug1/switch_1/true''
          = Inr (message, st_plug,
                 [Open ''abc123'' (JStr ''10.0.0.5'') (JStr ''K''), Set_version (JStr ''3.3''),
                  Call (Set_value ''1'' (JBool True))] @ rest))"
proof -
  have s: "CHR ''/'' \<notin> set ''Plug1''" "CHR ''/'' \<notin> set ''switch_1''" "CHR ''/'' \<notin> set ''true''"
    by simp_all
  have nn: "\<not> isnumeric ''switch_1''"
    by (simp add: isnumeric_def isnumeric_char_def isdecimal_char_def)
  have r: "resolve_id ext_ok (deviceslist st_plug) ''Plug1'' = Inr (JStr ''abc123'')"
    by (simp add: resolve_id_def getDeviceIdByName_def keys_def st_plug_def ext_ok_def
        entry_plug_def)
  have e: "map_of (deviceslist st_plug) ''abc123'' = Some entry_plug"
    "map_of entry_plug ''ip'' = Some (JStr ''10.0.0.5'')"
    "map_of entry_plug ''key'' = Some (JStr ''K'')"
    "map_of entry_plug ''version'' = Some (JStr ''3.3'')"
    "\<not> float_raises ext_ok (JStr ''3.3'')"
    by (simp_all add: st_plug_def entry_plug_def ext_ok_def)
  let ?x = "[(''id'', JStr ''abc123''), (''name'', JStr ''Plug1''), (''key'', JStr ''K''),
     (''mapping'', JObj [(''1'', JObj [(''code'', JStr ''switch_1'')])])]"
  have t: "tuyadevices st_plug = [] @ JObj ?x # [rec_lamp]"
    "other_records ''abc123'' []" "other_records ''abc123'' [rec_lamp]"
    "map_of ?x ''id'' = Some (JStr ''abc123'')"
    "map_of ?x ''mapping'' = Some (JObj ([] @ (''1'', JObj [(''code'', JStr ''switch_1'')]) # []))"
    "no_code ''switch_1'' []"
    "map_of [(''code'', JStr ''switch_1'')] ''code'' = Some (JStr ''switch_1'')"
    by (simp_all add: st_plug_def rec_plug_def rec_lamp_def other_records_def no_code_def)
  have v: "coerce_value (unquote ext_ok ''true'') = Inr (JBool True)"
    by (simp add: coerce_value_def lower_def lower_char_def ext_ok_def)
  from C9_code_to_data_point [OF s nn r e t v, of 0] nn r e(1) t(3,6) v show ?thesis
    by simp
qed

section \<open>The replies and the sessions in general\<close>

lemma split_str_absent: "sep \<noteq> [] \<Longrightarrow> hd sep \<notin> set s \<Longrightarrow> split_str sep s = [s]"
proof (induction s)
  case Nil
  then show ?case by simp
next
  case (Cons c cs)
  from Cons.prems have "take (length sep) (c # cs) \<noteq> sep"
    by (cases sep) auto
  with Cons show ?case by simp
qed

lemma split_str_prefix: "sep \<noteq> [] \<Longrightarrow> split_str sep (sep @ s) = [] # split_str sep s"
  by (cases sep) simp_all

lemma turnoff_token:
  "CHR ''/'' \<notin> set tok \<Longrightarrow> split_str ''/turnoff/'' (''/turnoff/'' @ tok) = ['''', tok]"
  using split_str_prefix [of "''/turnoff/''" tok] split_str_absent [of "''/turnoff/''" tok]
  by simp

lemma do_GET_turnoff:
  "do_GET ext now st (''/turnoff/'' @ tok) =
     (case handle_turnoff ext st (''/turnoff/'' @ tok) of
        Inl e \<Rightarrow> Inl e
      | Inr (message, tr) \<Rightarrow> Inr (message, st, tr))"
  by (simp add: do_GET_def startswith_def)

text \<open>
  The reply of claim C3 for every token: when the token has no slash, is no key of the
  registry and no entry has it as name, the not-found object carries False.
\<close>

lemma turnoff_unknown:
  assumes "CHR ''/'' \<notin> set tok" and "tok \<notin> keys (deviceslist st)"
    and "getDeviceIdByName ext (deviceslist st) tok = Inr (JBool False)"
  shows "do_GET ext now st (''/turnoff/'' @ tok) = Inr (not_found (JBool False), st, [])"
proof -
  have "handle_turnoff ext st (''/turnoff/'' @ tok) = Inr (not_found (JBool False), [])"
    unfolding handle_turnoff_def switch_branch_def turnoff_token [OF assms(1)]
    using assms by (simp add: resolve_id_def in_registry_def)
  then show ?thesis
    unfolding do_GET_turnoff by simp
qed

text \<open>
  The session of claim C2 for every device: when the operation raises, the events of the
  block end with the operation and contain no \<open>Close\<close>.
\<close>

lemma device_command_raises:
  assumes "open_device ext dl d = (Inr s, tr)" and "device ext s call = Inl e"
  shows "device_command ext dl d call = (Inl e, tr @ [Call call])"
    and "Close \<notin> set (snd (device_command ext dl d call))"
proof -
  from assms show "device_command ext dl d call = (Inl e, tr @ [Call call])"
    by (simp add: device_command_def)
  moreover from assms(1) have "Close \<notin> set tr"
    by (auto simp: open_device_def split: json.splits option.splits if_splits)
  ultimately show "Close \<notin> set (snd (device_command ext dl d call))" by simp
qed

end
